theory Spec2Isabelle
  imports Complex_Main "HOL-Library.AList" "HOL-Library.Product_Lexorder"
begin

section \<open>Configuration (app.py, lines 26-47)\<close>

definition NUM_GPUS :: int where
  "NUM_GPUS = 8"

definition HOURS_PER_DAY :: nat where
  "HOURS_PER_DAY = 24"

text \<open>
  Balances are Python floats in the source.  They are modelled as rationals: the
  rounding of binary floating point is left out, everything else (truncation by
  \<^verbatim>\<open>int()\<close>, \<^verbatim>\<open>max(0.0, ...)\<close>, the order of the additions) is kept.
\<close>

definition RELEASE_REFUND_CREDITS :: rat where
  "RELEASE_REFUND_CREDITS = 34 / 100"

datatype status = Executing | Open | Final | Future

section \<open>Clock and calendar (app.py, lines 79-228)\<close>

text \<open>
  All datetimes of the source carry the same \<^verbatim>\<open>tzinfo\<close>, so Python compares and
  shifts them by their wall-clock fields.  A datetime is modelled as the number of
  wall-clock seconds since midnight of the date with ordinal 0; the sub-second part of
  \<^verbatim>\<open>now\<close> is dropped, which changes no comparison of the source, since every other
  datetime it is compared with is a whole number of seconds.

  A day key \<^verbatim>\<open>YYYY-MM-DD\<close> is modelled as the ordinal of that date (the order of the
  zero-padded strings is the order of the ordinals).  A slot key
  \<^verbatim>\<open>YYYY-MM-DDTHH:00\<close> is the pair of the date's ordinal and the hour; a pair whose
  hour is 24 or more stands for a key that \<^verbatim>\<open>strptime\<close> rejects.
\<close>

type_synonym time = int
type_synonym day_key = int
type_synonym slot_key = "int \<times> nat"

definition date_of :: "time \<Rightarrow> int" where
  "date_of t = t div 86400"

definition hour_of :: "time \<Rightarrow> int" where
  "hour_of t = (t div 3600) mod 24"

definition hour_floor :: "time \<Rightarrow> time" where
  \<comment> \<open>\<^verbatim>\<open>now.replace(minute=0, second=0, microsecond=0)\<close>\<close>
  "hour_floor t = (t div 3600) * 3600"

definition day_start_for :: "int \<Rightarrow> time \<Rightarrow> time" where
  "day_start_for transition_hour dt =
     (let d = (if hour_of dt < transition_hour then date_of dt - 1 else date_of dt)
      in d * 86400 + transition_hour * 3600)"

definition format_day :: "time \<Rightarrow> day_key" where
  "format_day dt = date_of dt"

definition parse_day :: "int \<Rightarrow> day_key \<Rightarrow> time" where
  "parse_day transition_hour day_key = day_key * 86400 + transition_hour * 3600"

definition day_close_time :: "time \<Rightarrow> time" where
  "day_close_time day_start = day_start + 24 * 3600 - 1"

definition slot_id :: "int \<Rightarrow> nat \<Rightarrow> slot_key" where
  "slot_id day_str hour = (day_str, hour)"

definition slot_datetime :: "slot_key \<Rightarrow> time option" where
  \<comment> \<open>\<^verbatim>\<open>datetime.strptime(slot_key, "%Y-%m-%dT%H:%M")\<close>; \<open>None\<close> is the ValueError\<close>
  "slot_datetime k = (case k of (d, h) \<Rightarrow>
     if h < 24 then Some (d * 86400 + int h * 3600) else None)"

section \<open>Data model (app.py, lines 370-376, 432-443, 494-512)\<close>

record bid =
  bid_username :: string
  bid_price :: int
  bid_timestamp :: time

text \<open>
  \<open>actual_user\<close> is a key that may be absent from the entry's dict: \<open>None\<close> is
  "key absent", \<open>Some None\<close> is "present with value null".
\<close>

record gpu_entry =
  gpu :: nat
  price :: int
  winner :: "string option"
  bids :: "bid list"
  actual_user :: "string option option"

record slot =
  gpu_prices :: "gpu_entry list"

record day =
  day_start :: day_key
  status :: status
  slots :: "(slot_key \<times> slot) list"
  finalized_at :: "time option"

text \<open>
  A notification is the string \<^verbatim>\<open>week|slot|gpu\<close>, modelled as the triple.  The user's
  own key \<^verbatim>\<open>username\<close> is the key of the \<open>users\<close> dict; salt, password hash, role and
  last login play no part in the operations modelled here and are left out.
\<close>

type_synonym slot_triple = "day_key \<times> slot_key \<times> int"

record user =
  weekly_budget :: int
  balance :: rat
  rollover_applied :: int
  last_refill_week :: "day_key option"
  enabled :: bool
  outbid_notification_queue :: "slot_triple list"

record bid_record =
  log_username :: string
  log_week :: day_key
  log_slot :: slot_key
  log_gpu :: int
  log_price :: int
  log_timestamp :: time

text \<open>
  Python dicts keep insertion order and have unique keys: they are association lists,
  read with \<open>map_of\<close>, written with \<open>AList.update\<close> (in place when the key exists, at
  the end otherwise), mutated in place with \<open>AList.map_entry\<close> and popped with
  \<open>AList.delete\<close>.  A reserved slot is the string \<^verbatim>\<open>slot_gpuK\<close>, modelled as the pair.
  The telemetry globals \<^verbatim>\<open>gpu_usage_tracking\<close>, \<^verbatim>\<open>live_gpu_usage\<close> and
  \<^verbatim>\<open>live_gpu_timestamp\<close> are fields of the state.
\<close>

type_synonym user_counts = "(string \<times> nat) list"

record state =
  users :: "(string \<times> user) list"
  days :: "(day_key \<times> day) list"
  bid_log :: "bid_record list"
  reserved_slots :: "(day_key \<times> (slot_key \<times> int) list) list"
  day_transition_hour :: int
  gpu_usage_tracking :: "(day_key \<times> (slot_key \<times> (nat \<times> user_counts) list) list) list"
  live_gpu_usage :: "(nat \<times> string list) list"
  live_gpu_timestamp :: "time option"

text \<open>
  Every \<^verbatim>\<open>return {"error": ...}\<close> of the source is a constructor; \<open>Raised_IndexError\<close>
  is the uncaught exception of \<^verbatim>\<open>slot["gpu_prices"][gpu_index]\<close> on a short list.
  \<open>Auth_required\<close> is the answer of \<^verbatim>\<open>handle_api_post\<close> when the session has no
  enabled user.
\<close>

datatype error =
    Auth_required
  | Gpu_out_of_range
  | Day_not_found
  | Bidding_closed
  | Slot_not_found
  | Raised_IndexError
  | Reserved
  | Insufficient_credits
  | Missing_bids
  | Not_owner
  | Undo_conflict
  | Not_executing
  | Invalid_gpu_index
  | Invalid_slot_key
  | Too_late_to_release
  | No_slots_provided
  | No_open_days
  | Monitoring_not_configured
  | Missing_token
  | Invalid_token

definition py_int :: "rat \<Rightarrow> int" where
  \<comment> \<open>Python's \<^verbatim>\<open>int(x)\<close> on a float truncates towards zero\<close>
  "py_int x = (if 0 \<le> x then \<lfloor>x\<rfloor> else \<lceil>x\<rceil>)"

definition get_session_user :: "state \<Rightarrow> string \<Rightarrow> user option" where
  "get_session_user s username =
     (case map_of (users s) username of
        None \<Rightarrow> None
      | Some usr \<Rightarrow> if enabled usr then Some usr else None)"

section \<open>Day lookup (app.py, lines 450-464)\<close>

definition find_day_by_status :: "status \<Rightarrow> state \<Rightarrow> (day_key \<times> day) option" where
  "find_day_by_status st s = find (\<lambda>(key, d). status d = st) (days s)"

definition find_days_by_status :: "status \<Rightarrow> state \<Rightarrow> (day_key \<times> day) list" where
  "find_days_by_status st s = sort_key fst (filter (\<lambda>(key, d). status d = st) (days s))"

section \<open>Committed credits (app.py, lines 938-950)\<close>

definition entry_commit :: "string \<Rightarrow> gpu_entry \<Rightarrow> int" where
  "entry_commit username e = (if winner e = Some username then price e else 0)"

definition slot_commit :: "string \<Rightarrow> slot \<Rightarrow> int" where
  "slot_commit username sl = (\<Sum>e\<leftarrow>gpu_prices sl. entry_commit username e)"

definition day_commit :: "string \<Rightarrow> day \<Rightarrow> int" where
  "day_commit username d = (\<Sum>(k, sl)\<leftarrow>slots d. slot_commit username sl)"

definition committed_for_user :: "state \<Rightarrow> string \<Rightarrow> int" where
  "committed_for_user s username =
     (\<Sum>(k, d)\<leftarrow>find_days_by_status Open s. day_commit username d)"

section \<open>Writing one entry\<close>

text \<open>
  \<^verbatim>\<open>entry = state["days"][week]["slots"][slot]["gpu_prices"][gpu]\<close> is a reference into
  the state; assigning to its fields is an update of the state along that path.
\<close>

definition map_gpu_entry ::
  "day_key \<Rightarrow> slot_key \<Rightarrow> nat \<Rightarrow> (gpu_entry \<Rightarrow> gpu_entry) \<Rightarrow> state \<Rightarrow> state" where
  "map_gpu_entry week_key slot_key g f s =
     s\<lparr>days := AList.map_entry week_key
        (\<lambda>d. d\<lparr>slots := AList.map_entry slot_key
           (\<lambda>sl. sl\<lparr>gpu_prices := (gpu_prices sl)[g := f (gpu_prices sl ! g)]\<rparr>) (slots d)\<rparr>)
        (days s)\<rparr>"

definition lookup_slot :: "state \<Rightarrow> day_key \<Rightarrow> slot_key \<Rightarrow> slot option" where
  "lookup_slot s week_key slot_key =
     (case map_of (days s) week_key of
        None \<Rightarrow> None
      | Some d \<Rightarrow> map_of (slots d) slot_key)"

definition lookup_entry :: "state \<Rightarrow> day_key \<Rightarrow> slot_key \<Rightarrow> nat \<Rightarrow> gpu_entry option" where
  "lookup_entry s week_key slot_key g =
     (case map_of (days s) week_key of
        None \<Rightarrow> None
      | Some d \<Rightarrow>
          (case map_of (slots d) slot_key of
             None \<Rightarrow> None
           | Some sl \<Rightarrow> if g < length (gpu_prices sl) then Some (gpu_prices sl ! g) else None))"

section \<open>Single bid (app.py, lines 1012-1104)\<close>

definition reserved_for :: "state \<Rightarrow> day_key \<Rightarrow> (slot_key \<times> int) list" where
  \<comment> \<open>\<^verbatim>\<open>policy.get("reserved_slots", {}).get(week_key, [])\<close>\<close>
  "reserved_for s week_key =
     (case map_of (reserved_slots s) week_key of None \<Rightarrow> [] | Some r \<Rightarrow> r)"

definition outbid_users :: "string \<Rightarrow> gpu_entry \<Rightarrow> string list" where
  \<comment> \<open>the set of bidders other than the caller; each is notified once, and the
      notifications go to different users, so the set's iteration order is immaterial\<close>
  "outbid_users username e =
     remdups (filter (\<lambda>n. n \<noteq> [] \<and> n \<noteq> username) (map bid_username (bids e)))"

definition notify_outbid :: "slot_triple \<Rightarrow> string \<Rightarrow> (string \<times> user) list \<Rightarrow> (string \<times> user) list" where
  "notify_outbid sid outbid_username us =
     AList.map_entry outbid_username
       (\<lambda>usr. if sid \<in> set (outbid_notification_queue usr) then usr
              else usr\<lparr>outbid_notification_queue := outbid_notification_queue usr @ [sid]\<rparr>) us"

definition truncate_log :: "bid_record list \<Rightarrow> bid_record list" where
  "truncate_log l = (if length l > 500 then drop (length l - 500) l else l)"

definition bid_entry :: "string \<Rightarrow> int \<Rightarrow> time \<Rightarrow> gpu_entry \<Rightarrow> gpu_entry" where
  "bid_entry username new_price ts e =
     e\<lparr>price := new_price, winner := Some username,
       bids := bids e @ [\<lparr>bid_username = username, bid_price = new_price, bid_timestamp = ts\<rparr>]\<rparr>"

definition apply_bid :: "string \<Rightarrow> day_key \<Rightarrow> slot_key \<Rightarrow> int \<Rightarrow> int \<Rightarrow> time \<Rightarrow> state \<Rightarrow> state" where
  \<comment> \<open>the mutation shared by the single and the bulk path, without the log truncation\<close>
  "apply_bid username week_key slot_key gpu_index new_price ts s =
     (let outbid = (case lookup_entry s week_key slot_key (nat gpu_index) of
                      None \<Rightarrow> [] | Some e \<Rightarrow> outbid_users username e);
          s1 = map_gpu_entry week_key slot_key (nat gpu_index) (bid_entry username new_price ts) s;
          s2 = s1\<lparr>users := fold (notify_outbid (week_key, slot_key, gpu_index)) outbid (users s1)\<rparr>
      in s2\<lparr>bid_log := bid_log s2 @
            [\<lparr>log_username = username, log_week = week_key, log_slot = slot_key,
              log_gpu = gpu_index, log_price = new_price, log_timestamp = ts\<rparr>]\<rparr>)"

definition place_bid ::
  "string \<Rightarrow> slot_triple \<Rightarrow> time \<Rightarrow> state \<Rightarrow> (error + int \<times> string) \<times> state" where
  "place_bid username payload now s =
     (case payload of (week_key, slot_key, gpu_index) \<Rightarrow>
     (case get_session_user s username of
        None \<Rightarrow> (Inl Auth_required, s)
      | Some usr \<Rightarrow>
     (if gpu_index < 0 \<or> gpu_index \<ge> NUM_GPUS then (Inl Gpu_out_of_range, s) else
     (case map_of (days s) week_key of
        None \<Rightarrow> (Inl Day_not_found, s)
      | Some d \<Rightarrow>
     (if status d \<noteq> Open then (Inl Bidding_closed, s) else
     (case map_of (slots d) slot_key of
        None \<Rightarrow> (Inl Slot_not_found, s)
      | Some sl \<Rightarrow>
     (if nat gpu_index \<ge> length (gpu_prices sl) then (Inl Raised_IndexError, s) else
     (let entry = gpu_prices sl ! nat gpu_index in
     (if (slot_key, gpu_index) \<in> set (reserved_for s week_key) then (Inl Reserved, s) else
     (let current_price = price entry;
          new_price = current_price + 1;
          committed = committed_for_user s username;
          available_balance = py_int (balance usr);
          committed = (if winner entry = Some username then committed - current_price
                       else committed)
      in (if committed + new_price > available_balance then (Inl Insufficient_credits, s) else
         (let s1 = apply_bid username week_key slot_key gpu_index new_price now s
          in (Inr (new_price, username), s1\<lparr>bid_log := truncate_log (bid_log s1)\<rparr>)))))))))))))"

section \<open>Bulk bid (app.py, lines 1107-1284)\<close>

text \<open>
  A bid of the payload is the triple of its \<^verbatim>\<open>week\<close>, \<^verbatim>\<open>slot\<close> and \<^verbatim>\<open>gpu\<close> fields, the
  last an integer.  Python's \<^verbatim>\<open>sorted\<close> is stable and orders the key tuples
  lexicographically, as \<open>sort_key\<close> does on the product order.
\<close>

fun unique_bids :: "slot_triple list \<Rightarrow> slot_triple list \<Rightarrow> slot_triple list" where
  "unique_bids seen_slots [] = []"
| "unique_bids seen_slots (b # sorted_bids) =
     (if b \<in> set seen_slots then unique_bids seen_slots sorted_bids
      else b # unique_bids (b # seen_slots) sorted_bids)"

fun lock_keys :: "slot_triple list \<Rightarrow> error + slot_triple list" where
  "lock_keys [] = Inr []"
| "lock_keys ((week_key, slot_key, gpu_index) # sorted_bids) =
     (if gpu_index < 0 \<or> gpu_index \<ge> NUM_GPUS then Inl Gpu_out_of_range
      else (case lock_keys sorted_bids of
              Inl e \<Rightarrow> Inl e
            | Inr ks \<Rightarrow> Inr ((week_key, slot_key, gpu_index) # ks)))"

text \<open>
  The \<^verbatim>\<open>entry\<close> of a validation is a reference into the state: the path
  \<open>(v_week_key, v_slot_key, v_gpu_index)\<close> stands for it.
\<close>

record validation =
  v_week_key :: day_key
  v_slot_key :: slot_key
  v_gpu_index :: int
  v_current_price :: int
  v_new_price :: int
  v_is_mine :: bool

fun validate_bids :: "state \<Rightarrow> string \<Rightarrow> slot_triple list \<Rightarrow> error + validation list" where
  "validate_bids s username [] = Inr []"
| "validate_bids s username ((week_key, slot_key, gpu_index) # sorted_bids) =
     (case map_of (days s) week_key of
        None \<Rightarrow> Inl Day_not_found
      | Some d \<Rightarrow>
     (if status d \<noteq> Open then Inl Bidding_closed else
     (case map_of (slots d) slot_key of
        None \<Rightarrow> Inl Slot_not_found
      | Some sl \<Rightarrow>
     (if nat gpu_index \<ge> length (gpu_prices sl) then Inl Raised_IndexError else
     (let entry = gpu_prices sl ! nat gpu_index in
     (if (slot_key, gpu_index) \<in> set (reserved_for s week_key) then Inl Reserved else
     (case validate_bids s username sorted_bids of
        Inl e \<Rightarrow> Inl e
      | Inr validations \<Rightarrow>
          Inr (\<lparr>v_week_key = week_key, v_slot_key = slot_key, v_gpu_index = gpu_index,
                v_current_price = price entry, v_new_price = price entry + 1,
                v_is_mine = (winner entry = Some username)\<rparr> # validations))))))))"

definition check_total_cost :: "validation list \<Rightarrow> int \<Rightarrow> int \<times> int" where
  \<comment> \<open>the loop over \<^verbatim>\<open>validations\<close> that adjusts \<^verbatim>\<open>committed\<close> and sums \<^verbatim>\<open>total_cost\<close>\<close>
  "check_total_cost validations committed =
     fold (\<lambda>v (c, total_cost).
             ((if v_is_mine v then c - v_current_price v else c), total_cost + v_new_price v))
          validations (committed, 0)"

definition execute_bids :: "string \<Rightarrow> time \<Rightarrow> validation list \<Rightarrow> state \<Rightarrow> state" where
  "execute_bids username ts validations s =
     fold (\<lambda>v. apply_bid username (v_week_key v) (v_slot_key v) (v_gpu_index v) (v_new_price v) ts)
          validations s"

definition bulk_results :: "validation list \<Rightarrow> (slot_key \<times> int \<times> int) list" where
  "bulk_results validations = map (\<lambda>v. (v_slot_key v, v_gpu_index v, v_new_price v)) validations"

definition place_bulk_bids ::
  "string \<Rightarrow> slot_triple list \<Rightarrow> time \<Rightarrow> state
     \<Rightarrow> (error + (slot_key \<times> int \<times> int) list) \<times> state" where
  "place_bulk_bids username bids_in now s =
     (case get_session_user s username of
        None \<Rightarrow> (Inl Auth_required, s)
      | Some usr \<Rightarrow>
     (if bids_in = [] then (Inl Missing_bids, s) else
     (let sorted_bids = unique_bids [] (sort_key (\<lambda>b. b) bids_in) in
     (case lock_keys sorted_bids of
        Inl e \<Rightarrow> (Inl e, s)
      | Inr ks \<Rightarrow>
     (case validate_bids s username sorted_bids of
        Inl e \<Rightarrow> (Inl e, s)
      | Inr validations \<Rightarrow>
     (let available_balance = py_int (balance usr) in
     (case check_total_cost validations (committed_for_user s username) of
        (committed, total_cost) \<Rightarrow>
     (if committed + total_cost > available_balance then (Inl Insufficient_credits, s) else
     (let s1 = execute_bids username now validations s
      in (Inr (bulk_results validations), s1\<lparr>bid_log := truncate_log (bid_log s1)\<rparr>))))))))))"

section \<open>Undo (app.py, lines 1287-1338)\<close>

definition undo_entry :: "string \<Rightarrow> string option \<Rightarrow> int \<Rightarrow> gpu_entry \<Rightarrow> gpu_entry" where
  "undo_entry username previous_winner previous_price e =
     e\<lparr>winner := previous_winner, price := previous_price,
       bids := (if bids e \<noteq> [] \<and> bid_username (last (bids e)) = username
                then butlast (bids e) else bids e)\<rparr>"

definition undo_bid ::
  "string \<Rightarrow> slot_triple \<Rightarrow> string option \<Rightarrow> int \<Rightarrow> state \<Rightarrow> (error + unit) \<times> state" where
  "undo_bid username payload previous_winner previous_price s =
     (case payload of (week_key, slot_key, gpu_index) \<Rightarrow>
     (case get_session_user s username of
        None \<Rightarrow> (Inl Auth_required, s)
      | Some usr \<Rightarrow>
     (if gpu_index < 0 \<or> gpu_index \<ge> NUM_GPUS then (Inl Gpu_out_of_range, s) else
     (case map_of (days s) week_key of
        None \<Rightarrow> (Inl Day_not_found, s)
      | Some d \<Rightarrow>
     (if status d \<noteq> Open then (Inl Bidding_closed, s) else
     (case map_of (slots d) slot_key of
        None \<Rightarrow> (Inl Slot_not_found, s)
      | Some sl \<Rightarrow>
     (if nat gpu_index \<ge> length (gpu_prices sl) then (Inl Raised_IndexError, s) else
     (let entry = gpu_prices sl ! nat gpu_index in
     (if winner entry \<noteq> Some username then (Inl Not_owner, s) else
     (if previous_winner \<noteq> None \<and> previous_winner \<noteq> Some [] \<and> previous_winner \<noteq> Some username
      then (Inl Undo_conflict, s)
      else (Inr (),
            map_gpu_entry week_key slot_key (nat gpu_index)
              (undo_entry username previous_winner previous_price) s)))))))))))"

section \<open>Release (app.py, lines 1345-1537)\<close>

definition clear_entry :: "gpu_entry \<Rightarrow> gpu_entry" where
  "clear_entry e = e\<lparr>winner := None, price := 0\<rparr>"

definition add_balance :: "string \<Rightarrow> rat \<Rightarrow> state \<Rightarrow> state" where
  "add_balance username amount s =
     s\<lparr>users := AList.map_entry username (\<lambda>usr. usr\<lparr>balance := balance usr + amount\<rparr>) (users s)\<rparr>"

definition release_slot ::
  "string \<Rightarrow> slot_triple \<Rightarrow> time \<Rightarrow> state \<Rightarrow> (error + rat \<times> rat) \<times> state" where
  "release_slot username payload now s =
     (case payload of (day_key, slot_key, gpu_index) \<Rightarrow>
     (case get_session_user s username of
        None \<Rightarrow> (Inl Auth_required, s)
      | Some usr \<Rightarrow>
     (if gpu_index < 0 \<or> gpu_index \<ge> NUM_GPUS then (Inl Gpu_out_of_range, s) else
     (case map_of (days s) day_key of
        None \<Rightarrow> (Inl Day_not_found, s)
      | Some d \<Rightarrow>
     (if status d \<noteq> Executing then (Inl Not_executing, s) else
     (case map_of (slots d) slot_key of
        None \<Rightarrow> (Inl Slot_not_found, s)
      | Some sl \<Rightarrow>
     (if nat gpu_index \<ge> length (gpu_prices sl) then (Inl Invalid_gpu_index, s) else
     (let entry = gpu_prices sl ! nat gpu_index in
     (if winner entry \<noteq> Some username then (Inl Not_owner, s) else
     (case slot_datetime slot_key of
        None \<Rightarrow> (Inl Invalid_slot_key, s)
      | Some slot_dt \<Rightarrow>
     (let next_hour = hour_floor now + 3600 in
     (if slot_dt < next_hour then (Inl Too_late_to_release, s) else
     (let slot_price = (of_int (price entry) :: rat);
          refund = slot_price * (1 / 2);
          s1 = add_balance username refund s;
          s2 = map_gpu_entry day_key slot_key (nat gpu_index) clear_entry s1
      in (Inr (refund, balance usr + refund), s2))))))))))))))"

fun validate_release_items :: "slot_triple list \<Rightarrow> error + slot_triple list" where
  "validate_release_items [] = Inr []"
| "validate_release_items ((week_key, slot_key, gpu_index) # items) =
     (if gpu_index < 0 \<or> gpu_index \<ge> NUM_GPUS then Inl Gpu_out_of_range
      else (case validate_release_items items of
              Inl e \<Rightarrow> Inl e
            | Inr validated \<Rightarrow> Inr ((week_key, slot_key, gpu_index) # validated)))"

definition release_one :: "string \<Rightarrow> time \<Rightarrow> slot_triple \<Rightarrow> state \<times> nat \<Rightarrow> state \<times> nat" where
  \<comment> \<open>one turn of the loop over \<^verbatim>\<open>validated\<close>; every \<^verbatim>\<open>continue\<close> returns the pair as it is\<close>
  "release_one username next_hour v acc =
     (case v of (week_key, slot_key, gpu_index) \<Rightarrow>
     (case acc of (s, released_count) \<Rightarrow>
     (case map_of (days s) week_key of
        None \<Rightarrow> acc
      | Some week \<Rightarrow>
     (if status week \<noteq> Executing then acc else
     (case slot_datetime slot_key of
        None \<Rightarrow> acc
      | Some slot_dt \<Rightarrow>
     (if slot_dt < next_hour then acc else
     (case map_of (slots week) slot_key of
        None \<Rightarrow> acc
      | Some sl \<Rightarrow>
     (if nat gpu_index \<ge> length (gpu_prices sl) then acc else
     (if winner (gpu_prices sl ! nat gpu_index) \<noteq> Some username then acc
      else (map_gpu_entry week_key slot_key (nat gpu_index) clear_entry s,
            released_count + 1))))))))))"

text \<open>
  The per-slot locks are plain \<^verbatim>\<open>threading.Lock\<close>s and this function acquires one for
  every item without removing duplicates: with a repeated item the second
  \<^verbatim>\<open>acquire\<close> of the same lock never returns.  \<open>None\<close> is that outcome.
\<close>

definition release_slots_bulk ::
  "string \<Rightarrow> slot_triple list \<Rightarrow> time \<Rightarrow> state
     \<Rightarrow> ((error + nat \<times> rat \<times> int) \<times> state) option" where
  "release_slots_bulk username slots_to_release now s =
     (case get_session_user s username of
        None \<Rightarrow> Some (Inl Auth_required, s)
      | Some usr \<Rightarrow>
     (if slots_to_release = [] then Some (Inl No_slots_provided, s) else
     (case validate_release_items slots_to_release of
        Inl e \<Rightarrow> Some (Inl e, s)
      | Inr validated \<Rightarrow>
     (if \<not> distinct validated then None else
     (let next_hour = hour_floor now + 3600 in
     (case fold (release_one username next_hour) validated (s, 0) of
        (s1, released_count) \<Rightarrow>
     (let total_refund = of_nat released_count * RELEASE_REFUND_CREDITS;
          s2 = add_balance username total_refund s1
      in Some (Inr (released_count, total_refund, py_int (balance usr + total_refund)), s2))))))))"

section \<open>Creating days (app.py, lines 473-512)\<close>

definition truthy :: "string option \<Rightarrow> bool" where
  \<comment> \<open>Python's truth value of a username: neither \<^verbatim>\<open>None\<close> nor the empty string\<close>
  "truthy w = (w \<noteq> None \<and> w \<noteq> Some [])"

definition has_data :: "day \<Rightarrow> bool" where
  "has_data existing =
     list_ex (\<lambda>(k, sl). list_ex (\<lambda>g. truthy (winner g)) (gpu_prices sl)) (slots existing)"

definition new_day :: "day_key \<Rightarrow> status \<Rightarrow> day" where
  "new_day day_key st =
     \<lparr>day_start = day_key, status = st,
      slots = map (\<lambda>hour. (slot_id day_key hour,
                 \<lparr>gpu_prices = map (\<lambda>g. \<lparr>gpu = g, price = 0, winner = None, bids = [],
                                          actual_user = None\<rparr>) [0..<nat NUM_GPUS]\<rparr>))
               [0..<HOURS_PER_DAY],
      finalized_at = None\<rparr>"

definition ensure_day_exists :: "time \<Rightarrow> status \<Rightarrow> state \<Rightarrow> state" where
  "ensure_day_exists day_start_dt st s =
     (let day_key = format_day day_start_dt in
      (case map_of (days s) day_key of
         Some existing \<Rightarrow>
           (if \<not> has_data existing
            then s\<lparr>days := AList.map_entry day_key (\<lambda>d. d\<lparr>status := st\<rparr>) (days s)\<rparr>
            else s)
       | None \<Rightarrow> s\<lparr>days := AList.update day_key (new_day day_key st) (days s)\<rparr>))"

section \<open>Day cycle (app.py, lines 556-700)\<close>

definition add_payout :: "gpu_entry \<Rightarrow> (string \<times> rat) list \<Rightarrow> (string \<times> rat) list" where
  "add_payout entry payouts =
     (case winner entry of
        None \<Rightarrow> payouts
      | Some w \<Rightarrow>
          (if w = [] then payouts
           else AList.update w
                  ((case map_of payouts w of None \<Rightarrow> 0 | Some a \<Rightarrow> a) + of_int (price entry))
                  payouts))"

definition compute_payouts :: "day \<Rightarrow> (string \<times> rat) list" where
  "compute_payouts next_day_data =
     fold (\<lambda>(k, sl) payouts. fold add_payout (gpu_prices sl) payouts) (slots next_day_data) []"

definition deduct_payouts :: "(string \<times> rat) list \<Rightarrow> (string \<times> user) list \<Rightarrow> (string \<times> user) list" where
  "deduct_payouts payouts us =
     fold (\<lambda>(username, amount).
             AList.map_entry username (\<lambda>usr. usr\<lparr>balance := max 0 (balance usr - amount)\<rparr>))
          payouts us"

definition add_daily_budget :: "day_key \<Rightarrow> (string \<times> user) list \<Rightarrow> (string \<times> user) list" where
  "add_daily_budget next_day_key us =
     map (\<lambda>(name, usr).
            (name, if \<not> enabled usr then usr
                   else usr\<lparr>balance := balance usr + of_int (weekly_budget usr),
                            rollover_applied := 0,
                            last_refill_week := Some next_day_key\<rparr>)) us"

definition advance_day_cycle :: "time \<Rightarrow> state \<Rightarrow> (error + day_key \<times> day_key) \<times> state" where
  "advance_day_cycle now s =
     (let th = day_transition_hour s;
          current_entry = find_day_by_status Executing s;
          open_days = find_days_by_status Open s in
     (case open_days of
        [] \<Rightarrow> (Inl No_open_days, s)
      | (next_day_key, next_day_data) # other_open \<Rightarrow>
     (case (case current_entry of
              Some (k, d) \<Rightarrow> (k, s)
            | None \<Rightarrow>
                (let current_key = format_day (day_start_for th now)
                 in (format_day (parse_day th current_key),
                     ensure_day_exists (parse_day th current_key) Executing s))) of
        (current_key, s1) \<Rightarrow>
     (let payouts = compute_payouts next_day_data;
          s2 = s1\<lparr>users := deduct_payouts payouts (users s1)\<rparr>;
          s3 = s2\<lparr>users := add_daily_budget next_day_key (users s2)\<rparr>;
          s4 = s3\<lparr>days := AList.map_entry current_key
                  (\<lambda>d. d\<lparr>status := Final,
                          finalized_at := (if finalized_at d = None then Some now
                                           else finalized_at d)\<rparr>) (days s3)\<rparr>;
          s5 = s4\<lparr>days := AList.map_entry next_day_key
                  (\<lambda>d. d\<lparr>status := Executing, finalized_at := Some now\<rparr>) (days s4)\<rparr>;
          new_current_start = parse_day th next_day_key;
          new_open_day_start = new_current_start + 6 * 86400;
          new_open_day_key = format_day new_open_day_start;
          s6 = s5\<lparr>days := AList.delete new_open_day_key (days s5)\<rparr>;
          s7 = ensure_day_exists new_open_day_start Open s6
      in (Inr (day_start next_day_data, new_open_day_key), s7)))))"

fun auto_advance_loop ::
  "nat \<Rightarrow> time \<Rightarrow> (error + day_key \<times> day_key) option \<Rightarrow> state
     \<Rightarrow> (error + day_key \<times> day_key) option \<times> state" where
  "auto_advance_loop 0 now result s = (result, s)"
| "auto_advance_loop (Suc n) now result s =
     (case find_day_by_status Executing s of
        None \<Rightarrow> (result, s)
      | Some (current_key, d) \<Rightarrow>
          (let cutoff = day_close_time (parse_day (day_transition_hour s) current_key) in
           (if now < cutoff then (result, s)
            else (case advance_day_cycle now s of
                    (r, s') \<Rightarrow> auto_advance_loop n now (Some r) s'))))"

definition maybe_auto_advance ::
  "time \<Rightarrow> state \<Rightarrow> (error + day_key \<times> day_key) option \<times> state" where
  "maybe_auto_advance now s = auto_advance_loop 10 now None s"

definition ensure_open_day :: "day_key \<Rightarrow> state \<Rightarrow> state" where
  \<comment> \<open>one turn of the loop over \<^verbatim>\<open>expected_open_days\<close>\<close>
  "ensure_open_day day_key s =
     (case map_of (days s) day_key of
        None \<Rightarrow> ensure_day_exists (parse_day (day_transition_hour s) day_key) Open s
      | Some d \<Rightarrow>
          (if status d \<noteq> Open
           then s\<lparr>days := AList.map_entry day_key (\<lambda>d. d\<lparr>status := Open\<rparr>) (days s)\<rparr>
           else s))"

section \<open>Telemetry (app.py, lines 724-917)\<close>

type_synonym gpu_tracking = "(nat \<times> user_counts) list"

definition default_key :: "'k \<Rightarrow> 'v \<Rightarrow> ('k \<times> 'v) list \<Rightarrow> ('k \<times> 'v) list" where
  \<comment> \<open>\<^verbatim>\<open>if k not in d: d[k] = v\<close>\<close>
  "default_key k v xs = (case map_of xs k of None \<Rightarrow> AList.update k v xs | Some w \<Rightarrow> xs)"

definition get_or :: "'v \<Rightarrow> ('k \<times> 'v) list \<Rightarrow> 'k \<Rightarrow> 'v" where
  \<comment> \<open>\<^verbatim>\<open>d.get(k, v)\<close>\<close>
  "get_or v xs k = (case map_of xs k of None \<Rightarrow> v | Some w \<Rightarrow> w)"

definition count_user :: "string \<Rightarrow> user_counts \<times> nat \<Rightarrow> user_counts \<times> nat" where
  "count_user username acc =
     (case acc of (uc, processed) \<Rightarrow>
        (if username \<noteq> [] then (AList.update username (get_or 0 uc username + 1) uc, processed + 1)
         else acc))"

definition record_usage :: "int \<times> string list \<Rightarrow> gpu_tracking \<times> nat \<Rightarrow> gpu_tracking \<times> nat" where
  \<comment> \<open>one turn of the loop over \<^verbatim>\<open>usage_dict.items()\<close>; the key is the parsed \<^verbatim>\<open>int(gpu_str)\<close>\<close>
  "record_usage item acc =
     (case item of (gpu_index, usernames) \<Rightarrow>
     (case acc of (gt, processed) \<Rightarrow>
     (if gpu_index < 0 \<or> gpu_index \<ge> NUM_GPUS then acc else
     (let g = nat gpu_index;
          gt1 = default_key g [] gt
      in (case fold count_user usernames (get_or [] gt1 g, processed) of
            (uc, processed') \<Rightarrow> (AList.update g uc gt1, processed'))))))"

definition live_usage :: "(int \<times> string list) list \<Rightarrow> (nat \<times> string list) list" where
  "live_usage usage =
     fold (\<lambda>(gpu_index, usernames) l.
             if 0 \<le> gpu_index \<and> gpu_index < NUM_GPUS
             then AList.update (nat gpu_index) (filter (\<lambda>u. u \<noteq> []) usernames) l else l)
          usage []"

definition process_gpu_status ::
  "string \<Rightarrow> string \<Rightarrow> (int \<times> string list) list \<Rightarrow> time \<Rightarrow> state
     \<Rightarrow> (error + nat \<times> slot_key) \<times> state" where
  "process_gpu_status auth_header expected_token usage now s =
     (if expected_token = [] then (Inl Monitoring_not_configured, s) else
     (if take 7 auth_header \<noteq> ''Bearer '' then (Inl Missing_token, s) else
     (if drop 7 auth_header \<noteq> expected_token then (Inl Invalid_token, s) else
     (let week_key = format_day (day_start_for (day_transition_hour s) now);
          slot_key = slot_id (date_of now) (nat (hour_of now));
          s1 = s\<lparr>live_gpu_usage := live_usage usage, live_gpu_timestamp := Some now\<rparr>;
          tr1 = default_key week_key [] (gpu_usage_tracking s1);
          st1 = default_key slot_key [] (get_or [] tr1 week_key)
      in (case fold record_usage usage (get_or [] st1 slot_key, 0) of
            (gt, processed) \<Rightarrow>
              (Inr (processed, slot_key),
               s1\<lparr>gpu_usage_tracking :=
                    AList.update week_key (AList.update slot_key gt st1) tr1\<rparr>))))))"

definition most_frequent :: "user_counts \<Rightarrow> string option" where
  \<comment> \<open>\<^verbatim>\<open>max(user_counts.items(), key=lambda x: x[1])[0]\<close>: the first maximal item; \<open>None\<close>
      for an empty dict\<close>
  "most_frequent uc =
     (case uc of
        [] \<Rightarrow> None
      | x # xs \<Rightarrow> Some (fst (fold (\<lambda>y m. if snd y > snd m then y else m) xs x)))"

definition finalize_gpu ::
  "day_key \<Rightarrow> slot_key \<Rightarrow> nat \<times> user_counts \<Rightarrow> state \<times> nat \<Rightarrow> state \<times> nat" where
  "finalize_gpu day_key slot_key item acc =
     (case item of (gpu_index, uc) \<Rightarrow>
     (case acc of (s, finalized_count) \<Rightarrow>
     (case lookup_entry s day_key slot_key gpu_index of
        None \<Rightarrow> acc
      | Some entry \<Rightarrow>
          (if actual_user entry \<noteq> None then acc
           else (map_gpu_entry day_key slot_key gpu_index
                   (\<lambda>e. e\<lparr>actual_user := Some (most_frequent uc)\<rparr>) s,
                 finalized_count + 1)))))"

definition finalize_slot ::
  "day_key \<Rightarrow> time \<Rightarrow> slot_key \<times> gpu_tracking \<Rightarrow> state \<times> nat \<Rightarrow> state \<times> nat" where
  "finalize_slot day_key current_hour_start item acc =
     (case item of (slot_key, gt) \<Rightarrow>
     (case slot_datetime slot_key of
        None \<Rightarrow> acc
      | Some slot_dt \<Rightarrow>
          (if slot_dt + 3600 > current_hour_start then acc
           else (case lookup_slot (fst acc) day_key slot_key of
                   None \<Rightarrow> acc
                 | Some sl \<Rightarrow> fold (finalize_gpu day_key slot_key) gt acc))))"

definition finalize_day ::
  "time \<Rightarrow> day_key \<times> (slot_key \<times> gpu_tracking) list \<Rightarrow> state \<times> nat \<Rightarrow> state \<times> nat" where
  "finalize_day current_hour_start item acc =
     (case item of (day_key, st) \<Rightarrow>
     (case map_of (days (fst acc)) day_key of
        None \<Rightarrow> acc
      | Some d \<Rightarrow>
          (if status d \<noteq> Executing \<and> status d \<noteq> Final then acc
           else fold (finalize_slot day_key current_hour_start) st acc)))"

definition finalize_past_gpu_slots :: "time \<Rightarrow> state \<Rightarrow> nat \<times> state" where
  "finalize_past_gpu_slots now s =
     (case fold (finalize_day (hour_floor now)) (gpu_usage_tracking s) (s, 0) of
        (s1, finalized_count) \<Rightarrow>
          (let days_to_keep =
                 map (\<lambda>offset. format_day (day_start_for (day_transition_hour s1) now
                                             + offset * 86400)) [-7..0]
           in (finalized_count,
               s1\<lparr>gpu_usage_tracking :=
                    filter (\<lambda>(k, st). k \<in> set days_to_keep) (gpu_usage_tracking s1)\<rparr>)))"

section \<open>The state update of every request (app.py, lines 660-700)\<close>

text \<open>
  \<^verbatim>\<open>update_system_state\<close> reads the clock once and \<^verbatim>\<open>finalize_past_gpu_slots\<close> reads it
  again: \<open>now\<close> and \<open>now_fin\<close>.
\<close>

definition update_system_state :: "time \<Rightarrow> time \<Rightarrow> state \<Rightarrow> state" where
  "update_system_state now now_fin s =
     (let th = day_transition_hour s in
     (case (case find_day_by_status Executing s of
              Some (k, d) \<Rightarrow> (k, s)
            | None \<Rightarrow>
                (let current_day_start = day_start_for th now
                 in (format_day current_day_start,
                     ensure_day_exists current_day_start Executing s))) of
        (current_key, s1) \<Rightarrow>
     (let current_day_start = parse_day th current_key;
          expected_open_days =
            map (\<lambda>offset. format_day (current_day_start + offset * 86400)) [1..6];
          s2 = fold ensure_open_day expected_open_days s1
      in snd (finalize_past_gpu_slots now_fin (snd (maybe_auto_advance now s2))))))"

section \<open>Predicates of the specification and sample states\<close>

text \<open>
  The precondition of a single release: the gpu index is in range, the day is the
  executing one, the entry exists and the caller is its winner, and the slot starts at or
  after the next full hour.
\<close>

definition release_ok :: "string \<Rightarrow> slot_triple \<Rightarrow> time \<Rightarrow> state \<Rightarrow> bool" where
  "release_ok u p now s = (case p of (dk, sk, g) \<Rightarrow>
     0 \<le> g \<and> g < 8 \<and>
     (case map_of (days s) dk of None \<Rightarrow> False | Some d \<Rightarrow> status d = Executing) \<and>
     (case lookup_entry s dk sk (nat g) of None \<Rightarrow> False | Some e \<Rightarrow> winner e = Some u) \<and>
     (case slot_datetime sk of None \<Rightarrow> False | Some t \<Rightarrow> t \<ge> hour_floor now + 3600))"

text \<open>
  The caller of an undo owns the entry of an open day (the checks of \<open>undo_bid\<close> that
  come before the one on the previous winner).
\<close>

definition undo_owner :: "string \<Rightarrow> slot_triple \<Rightarrow> state \<Rightarrow> bool" where
  "undo_owner u p s = (case p of (wk, sk, g) \<Rightarrow>
     get_session_user s u \<noteq> None \<and> 0 \<le> g \<and> g < 8 \<and>
     (case map_of (days s) wk of None \<Rightarrow> False | Some d \<Rightarrow> status d = Open) \<and>
     (case lookup_entry s wk sk (nat g) of None \<Rightarrow> False | Some e \<Rightarrow> winner e = Some u))"

definition sample_user :: "rat \<Rightarrow> user" where
  "sample_user b =
     \<lparr>weekly_budget = 100, balance = b, rollover_applied = 0, last_refill_week = None,
      enabled = True, outbid_notification_queue = []\<rparr>"

definition sample_entry :: "nat \<Rightarrow> int \<Rightarrow> string option \<Rightarrow> gpu_entry" where
  "sample_entry g p w =
     \<lparr>gpu = g, price = p, winner = w,
      bids = (case w of None \<Rightarrow> []
              | Some n \<Rightarrow> [\<lparr>bid_username = n, bid_price = p, bid_timestamp = 0\<rparr>]),
      actual_user = None\<rparr>"

definition sample_slot :: "nat \<Rightarrow> int \<Rightarrow> string option \<Rightarrow> slot" where
  \<comment> \<open>eight entries, all empty but entry \<open>g\<close>\<close>
  "sample_slot g p w =
     \<lparr>gpu_prices = (map (\<lambda>i. sample_entry i 0 None) [0..<8])[g := sample_entry g p w]\<rparr>"

definition sample_day :: "day_key \<Rightarrow> status \<Rightarrow> (slot_key \<times> slot) list \<Rightarrow> day" where
  "sample_day k st sls = \<lparr>day_start = k, status = st, slots = sls, finalized_at = None\<rparr>"

definition sample_state :: "(string \<times> user) list \<Rightarrow> (day_key \<times> day) list \<Rightarrow> state" where
  "sample_state us ds =
     \<lparr>users = us, days = ds, bid_log = [], reserved_slots = [], day_transition_hour = 0,
      gpu_usage_tracking = [], live_gpu_usage = [], live_gpu_timestamp = None\<rparr>"

text \<open>
  Alice owns gpu 2 of the 15:00 slot of the executing day 10 at price 4; the clock reads
  14:20:34 of that day.
\<close>

definition release_state :: state where
  "release_state =
     sample_state [(''alice'', sample_user 5), (''bob'', sample_user 5)]
       [(10, sample_day 10 Executing
               [((10, 14), sample_slot 0 3 (Some ''alice'')),
                ((10, 15), sample_slot 2 4 (Some ''alice''))]),
        (11, sample_day 11 Open [((11, 9), sample_slot 3 1 (Some ''bob''))])]"

definition release_now :: time where
  "release_now = 10 * 86400 + 14 * 3600 + 20 * 60 + 34"

text \<open>
  Scenario S6: bob holds gpu 3 of the 09:00 slot of the open day 11 at price 1, then alice
  bids on it.
\<close>

definition outbid_state :: state where
  "outbid_state = snd (place_bid ''alice'' (11, (11, 9), 3) 7 release_state)"

text \<open>
  The balance of a user, and the precondition of a single bid as the specification words
  it: the gpu index is in range, the day is open, the entry exists and is not reserved,
  and the bid fits the floor of the balance.
\<close>

definition user_balance :: "state \<Rightarrow> string \<Rightarrow> rat" where
  "user_balance s u = (case map_of (users s) u of None \<Rightarrow> 0 | Some usr \<Rightarrow> balance usr)"

definition bid_admissible :: "string \<Rightarrow> slot_triple \<Rightarrow> state \<Rightarrow> bool" where
  "bid_admissible u p s = (case p of (wk, sk, g) \<Rightarrow>
     0 \<le> g \<and> g < 8 \<and>
     (case map_of (days s) wk of None \<Rightarrow> False | Some d \<Rightarrow> status d = Open) \<and>
     (sk, g) \<notin> set (reserved_for s wk) \<and>
     (case lookup_entry s wk sk (nat g) of
        None \<Rightarrow> False
      | Some e \<Rightarrow>
          committed_for_user s u - (if winner e = Some u then price e else 0) + (price e + 1)
            \<le> \<lfloor>user_balance s u\<rfloor>))"

text \<open>A sequence of bids of one user, every one of them accepted.\<close>

fun place_bids :: "string \<Rightarrow> (slot_triple \<times> time) list \<Rightarrow> state \<Rightarrow> state option" where
  "place_bids u [] s = Some s"
| "place_bids u ((p, now) # rest) s =
     (case place_bid u p now s of
        (Inl e, s') \<Rightarrow> None
      | (Inr r, s') \<Rightarrow> place_bids u rest s')"


text \<open>Two bids of alice on the open day 11, on gpu 3 (held by bob) and gpu 4 (empty).\<close>

definition alice_bids :: "(slot_triple \<times> time) list" where
  "alice_bids = [((11, (11, 9), 3), 7), ((11, (11, 9), 4), 8)]"


text \<open>
  Bulk bids.  \<open>bid_valid\<close> is the validation of one constituent bid: the gpu index is in
  range, the day exists and is open, the slot and its entry exist, and the entry is not
  reserved.  \<open>bulk_total\<close> is the aggregate cost of the normalised bids, each counted as
  \<open>price + 1\<close> less the price of an entry the caller wins already.
\<close>

definition entry_at :: "state \<Rightarrow> slot_triple \<Rightarrow> gpu_entry option" where
  "entry_at s b = (case b of (wk, sk, g) \<Rightarrow> lookup_entry s wk sk (nat g))"

definition bid_target_ok :: "state \<Rightarrow> slot_triple \<Rightarrow> bool" where
  "bid_target_ok s b = (case b of (wk, sk, g) \<Rightarrow>
     (case map_of (days s) wk of None \<Rightarrow> False | Some d \<Rightarrow> status d = Open) \<and>
     lookup_entry s wk sk (nat g) \<noteq> None \<and>
     (sk, g) \<notin> set (reserved_for s wk))"

definition bid_valid :: "state \<Rightarrow> slot_triple \<Rightarrow> bool" where
  "bid_valid s b = (case b of (wk, sk, g) \<Rightarrow> 0 \<le> g \<and> g < 8 \<and> bid_target_ok s b)"

definition normalised_bids :: "slot_triple list \<Rightarrow> slot_triple list" where
  "normalised_bids bids_in = unique_bids [] (sort_key (\<lambda>b. b) bids_in)"

definition bulk_total :: "string \<Rightarrow> state \<Rightarrow> slot_triple list \<Rightarrow> int" where
  "bulk_total u s bs =
     (\<Sum>b\<leftarrow>bs. case entry_at s b of None \<Rightarrow> 0 | Some e \<Rightarrow> price e + 1 - entry_commit u e)"

definition bulk_admissible :: "string \<Rightarrow> slot_triple list \<Rightarrow> state \<Rightarrow> bool" where
  "bulk_admissible u bids_in s =
     (bids_in \<noteq> [] \<and> list_all (bid_valid s) bids_in \<and>
      committed_for_user s u + bulk_total u s (normalised_bids bids_in)
        \<le> py_int (user_balance s u))"

text \<open>
  A bid is applied between two states: the entry's price is one more, the caller wins it,
  and one bid record with the given timestamp is appended.
\<close>

definition bid_applied :: "string \<Rightarrow> time \<Rightarrow> state \<Rightarrow> state \<Rightarrow> slot_triple \<Rightarrow> bool" where
  "bid_applied u ts s s' b =
     (case entry_at s b of
        None \<Rightarrow> False
      | Some e \<Rightarrow> entry_at s' b = Some (bid_entry u (price e + 1) ts e))"

definition log_of :: "string \<Rightarrow> time \<Rightarrow> validation \<Rightarrow> bid_record" where
  "log_of u ts v =
     \<lparr>log_username = u, log_week = v_week_key v, log_slot = v_slot_key v,
      log_gpu = v_gpu_index v, log_price = v_new_price v, log_timestamp = ts\<rparr>"

definition validation_of :: "string \<Rightarrow> state \<Rightarrow> slot_triple \<Rightarrow> validation" where
  "validation_of u s b = (case b of (wk, sk, g) \<Rightarrow>
     \<lparr>v_week_key = wk, v_slot_key = sk, v_gpu_index = g,
      v_current_price = price (the (entry_at s b)),
      v_new_price = price (the (entry_at s b)) + 1,
      v_is_mine = (winner (the (entry_at s b)) = Some u)\<rparr>)"


text \<open>
  Bulk bids of alice (balance 5) on the 09:00 slot of the open day 11: one list with a
  repeated bid that costs 3, and scenario S2, six distinct entries that cost 7.
\<close>

definition bulk_bids_ok :: "slot_triple list" where
  "bulk_bids_ok = [(11, (11, 9), 4), (11, (11, 9), 3), (11, (11, 9), 4)]"

definition bulk_bids_costly :: "slot_triple list" where
  "bulk_bids_costly = map (\<lambda>g. (11, (11, 9), g)) [0, 1, 2, 3, 4, 5]"


text \<open>
  Bulk release.  An item is releasable when its day is the executing one, its slot key
  parses to a start at or after the next full hour, and its entry exists and is won by
  the caller.  The reserved set plays no part.
\<close>

definition releasable :: "string \<Rightarrow> time \<Rightarrow> state \<Rightarrow> slot_triple \<Rightarrow> bool" where
  "releasable u next_hour s b = (case b of (wk, sk, g) \<Rightarrow>
     (case map_of (days s) wk of None \<Rightarrow> False | Some d \<Rightarrow> status d = Executing) \<and>
     (case slot_datetime sk of None \<Rightarrow> False | Some t \<Rightarrow> next_hour \<le> t) \<and>
     (case lookup_entry s wk sk (nat g) of None \<Rightarrow> False | Some e \<Rightarrow> winner e = Some u))"

definition gpu_in_range :: "slot_triple \<Rightarrow> bool" where
  "gpu_in_range b = (case b of (wk, sk, g) \<Rightarrow> 0 \<le> g \<and> g < 8)"

definition release_all :: "slot_triple list \<Rightarrow> state \<Rightarrow> state" where
  "release_all bs s = fold (\<lambda>(wk, sk, g). map_gpu_entry wk sk (nat g) clear_entry) bs s"

text \<open>
  Scenario S5 with a reserved entry: on the executing day 10 alice owns gpu 0 of the
  14:00 slot (already running at \<open>release_now\<close>) and gpu 2 of the 15:00 slot, which the
  policy reserves; gpu 3 of the 15:00 slot is empty.
\<close>

definition reserved_state :: state where
  "reserved_state = release_state\<lparr>reserved_slots := [(10, [((10, 15), 2)])]\<rparr>"

definition release_items :: "slot_triple list" where
  "release_items = [(10, (10, 14), 0), (10, (10, 15), 2), (10, (10, 15), 3), (12, (12, 1), 0)]"


definition released_count :: "string \<Rightarrow> time \<Rightarrow> state \<Rightarrow> slot_triple list \<Rightarrow> nat" where
  "released_count u now s bs = length (filter (releasable u (hour_floor now + 3600) s) bs)"


text \<open>
  Telemetry.  The sample map that the tracking holds for a (day, slot, gpu); the keys of
  a Python dict are unique, which \<open>wf_tracking\<close> says of the day and slot levels of the
  tracking.  A day is closed when its status is executing or final; a slot is done when
  its key parses and its end is at or before the start of the current hour.
\<close>

definition tracked_counts :: "state \<Rightarrow> day_key \<Rightarrow> slot_key \<Rightarrow> nat \<Rightarrow> user_counts option" where
  "tracked_counts s d k g =
     (case map_of (gpu_usage_tracking s) d of
        None \<Rightarrow> None
      | Some st \<Rightarrow> (case map_of st k of None \<Rightarrow> None | Some gt \<Rightarrow> map_of gt g))"

definition wf_tracking :: "(day_key \<times> (slot_key \<times> gpu_tracking) list) list \<Rightarrow> bool" where
  "wf_tracking tr = (distinct (map fst tr) \<and> list_all (\<lambda>(d, st). distinct (map fst st)) tr)"

definition day_closed :: "state \<Rightarrow> day_key \<Rightarrow> bool" where
  "day_closed s d =
     (case map_of (days s) d of None \<Rightarrow> False | Some dd \<Rightarrow> status dd = Executing \<or> status dd = Final)"

definition slot_done :: "time \<Rightarrow> slot_key \<Rightarrow> bool" where
  "slot_done now k =
     (case slot_datetime k of None \<Rightarrow> False | Some t \<Rightarrow> t + 3600 \<le> hour_floor now)"

definition fin_entry :: "user_counts \<Rightarrow> gpu_entry \<Rightarrow> gpu_entry" where
  "fin_entry uc e = (if actual_user e = None then e\<lparr>actual_user := Some (most_frequent uc)\<rparr> else e)"


text \<open>
  What the finalization of a list of tracked slots, and of the whole tracking, does to
  the entry \<open>x\<close> at a path.
\<close>

definition slot_effect ::
  "time \<Rightarrow> (slot_key \<times> gpu_tracking) list \<Rightarrow> slot_key \<Rightarrow> nat \<Rightarrow> gpu_entry option \<Rightarrow> gpu_entry option" where
  "slot_effect now st k g x =
     (case map_of st k of
        None \<Rightarrow> x
      | Some gt \<Rightarrow>
          (if slot_done now k
           then (case map_of gt g of None \<Rightarrow> x | Some uc \<Rightarrow> map_option (fin_entry uc) x)
           else x))"

definition day_effect ::
  "time \<Rightarrow> state \<Rightarrow> (day_key \<times> (slot_key \<times> gpu_tracking) list) list
     \<Rightarrow> day_key \<Rightarrow> slot_key \<Rightarrow> nat \<Rightarrow> gpu_entry option \<Rightarrow> gpu_entry option" where
  "day_effect now s tr d k g x =
     (case map_of tr d of
        None \<Rightarrow> x
      | Some st \<Rightarrow> (if day_closed s d then slot_effect now st k g x else x))"

text \<open>
  Scenario S4: during the 14:00 hour of the executing day 10 the samples of gpu 2 (won by
  alice) are alice 3, bob 17; those of gpu 5 tie at 5 with carol seen first; gpu 6 was
  polled with no user.  The 15:00 hour is still running at \<open>finalize_now\<close> (15:01).
\<close>

definition telemetry_state :: state where
  "telemetry_state =
     release_state\<lparr>gpu_usage_tracking :=
       [(10, [((10, 14), [(2, [(''alice'', 3), (''bob'', 17)]),
                          (5, [(''carol'', 5), (''dave'', 5)]),
                          (6, [])]),
              ((10, 15), [(2, [(''alice'', 1)])])])]\<rparr>"

definition finalize_now :: time where
  "finalize_now = 10 * 86400 + 15 * 3600 + 60"

text \<open>The day key and the slot key under which a poll at \<open>now\<close> is recorded.\<close>

definition poll_week :: "state \<Rightarrow> time \<Rightarrow> day_key" where
  "poll_week s now = format_day (day_start_for (day_transition_hour s) now)"

definition poll_slot :: "time \<Rightarrow> slot_key" where
  "poll_slot now = slot_id (date_of now) (nat (hour_of now))"

text \<open>
  A poll at \<open>release_now\<close> (14:20 of day 10) that reports gpu 7 with no user, the
  finalization after the hour has ended, and a later state in which the tracking holds
  samples of a real user for that gpu and hour.
\<close>

definition poll_usage :: "(int \<times> string list) list" where
  "poll_usage = [(7, []), (2, [''alice'', ''''])]"

definition polled_state :: state where
  "polled_state =
     snd (process_gpu_status ''Bearer secret'' ''secret'' poll_usage release_now telemetry_state)"

definition finalized_state :: state where
  "finalized_state = snd (finalize_past_gpu_slots finalize_now polled_state)"

definition resampled_state :: state where
  "resampled_state =
     finalized_state\<lparr>gpu_usage_tracking := [(10, [((10, 14), [(7, [(''bob'', 9)])])])]\<rparr>"

text \<open>
  Day rollover.  The credits a user owes for a day: the sum of the prices of the entries
  of the day that the user wins.  \<open>charged\<close> and \<open>credited\<close> are the two balance updates
  of the day advancement.
\<close>

definition day_entries :: "day \<Rightarrow> gpu_entry list" where
  "day_entries d = concat (map (\<lambda>(k, sl). gpu_prices sl) (slots d))"

definition payout_of :: "string \<Rightarrow> gpu_entry list \<Rightarrow> rat" where
  "payout_of name es = (\<Sum>e\<leftarrow>es. if winner e = Some name then of_int (price e) else 0)"

definition wins_in :: "string \<Rightarrow> gpu_entry list \<Rightarrow> bool" where
  "wins_in name es = list_ex (\<lambda>e. winner e = Some name) es"

definition charged :: "rat \<Rightarrow> user \<Rightarrow> user" where
  "charged amount usr = usr\<lparr>balance := max 0 (balance usr - amount)\<rparr>"

definition credited :: "day_key \<Rightarrow> user \<Rightarrow> user" where
  "credited next_day_key usr =
     (if \<not> enabled usr then usr
      else usr\<lparr>balance := balance usr + of_int (weekly_budget usr), rollover_applied := 0,
               last_refill_week := Some next_day_key\<rparr>)"

text \<open>The calendar after a rollover from the executing day \<open>e\<close> to the open day \<open>o1\<close>.\<close>

definition rolled_days :: "time \<Rightarrow> day_key \<Rightarrow> day_key \<Rightarrow> (day_key \<times> day) list \<Rightarrow> (day_key \<times> day) list" where
  "rolled_days now e o1 ds =
     AList.update (o1 + 6) (new_day (o1 + 6) Open)
       (AList.delete (o1 + 6)
          (AList.map_entry o1 (\<lambda>d. d\<lparr>status := Executing, finalized_at := Some now\<rparr>)
             (AList.map_entry e
                (\<lambda>d. d\<lparr>status := Final,
                        finalized_at := (if finalized_at d = None then Some now
                                         else finalized_at d)\<rparr>) ds)))"

text \<open>
  Scenario S3: day 10 executes; on the open day 11 alice wins gpu 0 of the 10:00 slot at
  price 4 and bob gpu 1 of the 11:00 slot at price 7; both hold 5 credits and a daily
  budget of 100; carol is disabled.  The clock reads one second after the close of day 10.
\<close>

definition rollover_day :: day where
  "rollover_day =
     sample_day 11 Open
       [((11, 10), sample_slot 0 4 (Some ''alice'')), ((11, 11), sample_slot 1 7 (Some ''bob''))]"

definition rollover_state :: state where
  "rollover_state =
     sample_state
       [(''alice'', sample_user 5), (''bob'', sample_user 5),
        (''carol'', (sample_user 9)\<lparr>enabled := False\<rparr>)]
       [(10, sample_day 10 Executing []), (11, rollover_day), (12, sample_day 12 Open [])]"

definition rollover_now :: time where
  "rollover_now = 11 * 86400"

text \<open>
  Invariant (I3) of an entry and of a state, the operations of the engine, and runs.  A
  bulk release that never returns (\<open>None\<close>) ends the run in the state it found.  The
  previous values of an undo are consistent when they satisfy (I3) themselves.
\<close>

definition entry_ok :: "gpu_entry \<Rightarrow> bool" where
  "entry_ok e = ((1 \<le> price e \<longleftrightarrow> winner e \<noteq> None) \<and> (winner e = None \<longrightarrow> price e = 0))"

definition day_ok :: "day_key \<times> day \<Rightarrow> bool" where
  "day_ok kd = list_all (\<lambda>(sk, sl). list_all entry_ok (gpu_prices sl)) (slots (snd kd))"

definition price_winner_inv :: "state \<Rightarrow> bool" where
  "price_winner_inv s = list_all day_ok (days s)"

datatype operation =
    Bid string slot_triple time
  | Bulk_bid string "slot_triple list" time
  | Undo string slot_triple "string option" int
  | Release string slot_triple time
  | Release_bulk string "slot_triple list" time
  | Advance time
  | Update_state time time

fun step :: "operation \<Rightarrow> state \<Rightarrow> state option" where
  "step (Bid u p now) s = Some (snd (place_bid u p now s))"
| "step (Bulk_bid u bs now) s = Some (snd (place_bulk_bids u bs now s))"
| "step (Undo u p previous_winner previous_price) s =
     Some (snd (undo_bid u p previous_winner previous_price s))"
| "step (Release u p now) s = Some (snd (release_slot u p now s))"
| "step (Release_bulk u bs now) s = map_option snd (release_slots_bulk u bs now s)"
| "step (Advance now) s = Some (snd (advance_day_cycle now s))"
| "step (Update_state now now_fin) s = Some (update_system_state now now_fin s)"

fun run :: "operation list \<Rightarrow> state \<Rightarrow> state" where
  "run [] s = s"
| "run (a # as) s = (case step a s of None \<Rightarrow> s | Some s' \<Rightarrow> run as s')"

definition undo_consistent :: "operation \<Rightarrow> bool" where
  "undo_consistent a =
     (case a of
        Undo u p previous_winner previous_price \<Rightarrow>
          (previous_winner = None \<and> previous_price = 0)
          \<or> (previous_winner \<noteq> None \<and> 1 \<le> previous_price)
      | _ \<Rightarrow> True)"

text \<open>
  A run on \<open>release_state\<close>: alice bids on a free entry and takes the bid back, outbids bob,
  releases one of her entries of the executing day; then the day is advanced and the
  system state is brought up to date.
\<close>

definition sample_run :: "operation list" where
  "sample_run =
     [Bid ''alice'' (11, (11, 9), 4) 7,
      Undo ''alice'' (11, (11, 9), 4) None 0,
      Bid ''alice'' (11, (11, 9), 3) 8,
      Release ''alice'' (10, (10, 15), 2) release_now,
      Advance (11 * 86400 + 5),
      Update_state (11 * 86400 + 10) (11 * 86400 + 10)]"

section \<open>Reading and writing along a path\<close>

lemma map_of_map_entry_same:
  "map_of (AList.map_entry k f xs) k = map_option f (map_of xs k)"
  by (simp add: map_of_map_entry split: option.splits)

lemma map_of_map_entry_other:
  "k' \<noteq> k \<Longrightarrow> map_of (AList.map_entry k f xs) k' = map_of xs k'"
  by (simp add: map_of_map_entry)

lemma users_map_gpu_entry [simp]: "users (map_gpu_entry d k g f s) = users s"
  by (simp add: map_gpu_entry_def)

lemma lookup_entry_map_gpu_entry:
  "lookup_entry (map_gpu_entry d k g f s) d' k' g' =
     (if d' = d \<and> k' = k \<and> g' = g then map_option f (lookup_entry s d k g)
      else lookup_entry s d' k' g')"
  by (auto simp: lookup_entry_def map_gpu_entry_def map_of_map_entry split: option.splits)

lemma days_add_balance [simp]: "days (add_balance u a s) = days s"
  by (simp add: add_balance_def)

lemma lookup_entry_add_balance [simp]:
  "lookup_entry (add_balance u a s) d k g = lookup_entry s d k g"
  by (simp add: lookup_entry_def)

lemma map_of_users_add_balance:
  "map_of (users (add_balance u a s)) u' =
     (if u' = u then map_option (\<lambda>usr. usr\<lparr>balance := balance usr + a\<rparr>) (map_of (users s) u)
      else map_of (users s) u')"
  by (simp add: add_balance_def map_of_map_entry split: option.splits)

section \<open>Committed credits under a bid\<close>

lemma sum_list_insort_key:
  fixes h :: "'a \<Rightarrow> int"
  shows "(\<Sum>x\<leftarrow>insort_key f a xs. h x) = h a + (\<Sum>x\<leftarrow>xs. h x)"
  by (induction xs) auto

lemma sum_list_sort_key:
  fixes h :: "'a \<Rightarrow> int"
  shows "(\<Sum>x\<leftarrow>sort_key f xs. h x) = (\<Sum>x\<leftarrow>xs. h x)"
  by (induction xs) (auto simp: sum_list_insort_key)

lemma committed_for_user_unsorted:
  "committed_for_user s u = (\<Sum>(k, d)\<leftarrow>days s. if status d = Open then day_commit u d else 0)"
proof -
  have "committed_for_user s u
      = (\<Sum>x\<leftarrow>filter (\<lambda>(key, d). status d = Open) (days s). case x of (k, d) \<Rightarrow> day_commit u d)"
    by (simp add: committed_for_user_def find_days_by_status_def sum_list_sort_key)
  also have "\<dots> = (\<Sum>x\<leftarrow>days s. if (case x of (key, d) \<Rightarrow> status d = Open)
                      then (case x of (k, d) \<Rightarrow> day_commit u d) else 0)"
    by (rule sum_list_map_filter')
  also have "\<dots> = (\<Sum>(k, d)\<leftarrow>days s. if status d = Open then day_commit u d else 0)"
    by (rule arg_cong [where f = sum_list]) (auto intro: map_cong)
  finally show ?thesis .
qed

lemma sum_list_map_entry:
  fixes h :: "'v \<Rightarrow> int"
  assumes "map_of xs k = Some v"
  shows "(\<Sum>(k', v')\<leftarrow>AList.map_entry k f xs. h v') = (\<Sum>(k', v')\<leftarrow>xs. h v') - h v + h (f v)"
  using assms by (induction xs) (auto split: if_splits)

lemma sum_list_map_entry_absent:
  fixes h :: "'v \<Rightarrow> int"
  assumes "map_of xs k = None"
  shows "AList.map_entry k f xs = xs"
  using assms by (induction xs) (auto split: if_splits)

lemma sum_list_list_update:
  fixes h :: "'a \<Rightarrow> int"
  assumes "g < length xs"
  shows "(\<Sum>e\<leftarrow>xs[g := x]. h e) = (\<Sum>e\<leftarrow>xs. h e) - h (xs ! g) + h x"
  using assms by (induction xs arbitrary: g) (auto split: nat.splits)

lemma committed_map_gpu_entry:
  assumes "map_of (days s) wk = Some d" and "status d = Open"
      and "map_of (slots d) sk = Some sl" and "g < length (gpu_prices sl)"
  shows "committed_for_user (map_gpu_entry wk sk g f s) u
       = committed_for_user s u - entry_commit u (gpu_prices sl ! g)
           + entry_commit u (f (gpu_prices sl ! g))"
proof -
  let ?fs = "\<lambda>sl. sl\<lparr>gpu_prices := (gpu_prices sl)[g := f (gpu_prices sl ! g)]\<rparr>"
  let ?fd = "\<lambda>d. d\<lparr>slots := AList.map_entry sk ?fs (slots d)\<rparr>"
  let ?h = "\<lambda>d. if status d = Open then day_commit u d else 0"
  have slot: "slot_commit u (?fs sl)
      = slot_commit u sl - entry_commit u (gpu_prices sl ! g) + entry_commit u (f (gpu_prices sl ! g))"
    using assms(4) by (simp add: slot_commit_def sum_list_list_update)
  have day: "day_commit u (?fd d) = day_commit u d - slot_commit u sl + slot_commit u (?fs sl)"
    using sum_list_map_entry [OF assms(3), of "slot_commit u" ?fs]
    by (simp add: day_commit_def)
  have "committed_for_user (map_gpu_entry wk sk g f s) u
      = (\<Sum>(k, d)\<leftarrow>AList.map_entry wk ?fd (days s). ?h d)"
    by (simp add: committed_for_user_unsorted map_gpu_entry_def)
  also have "\<dots> = (\<Sum>(k, d)\<leftarrow>days s. ?h d) - ?h d + ?h (?fd d)"
    by (rule sum_list_map_entry [OF assms(1)])
  finally show ?thesis
    using assms(2) slot day by (simp add: committed_for_user_unsorted)
qed

lemma days_apply_bid:
  "days (apply_bid u wk sk g p ts s) = days (map_gpu_entry wk sk (nat g) (bid_entry u p ts) s)"
  by (simp add: apply_bid_def Let_def)

lemma committed_days_cong:
  "days s = days s' \<Longrightarrow> committed_for_user s u = committed_for_user s' u"
  by (simp add: committed_for_user_def find_days_by_status_def)

lemma committed_apply_bid:
  assumes "map_of (days s) wk = Some d" and "status d = Open"
      and "map_of (slots d) sk = Some sl" and "nat g < length (gpu_prices sl)"
  shows "committed_for_user (apply_bid u wk sk g p ts s) u
       = committed_for_user s u - entry_commit u (gpu_prices sl ! nat g) + p"
proof -
  have "committed_for_user (apply_bid u wk sk g p ts s) u
      = committed_for_user (map_gpu_entry wk sk (nat g) (bid_entry u p ts) s) u"
    by (rule committed_days_cong) (rule days_apply_bid)
  also have "\<dots> = committed_for_user s u - entry_commit u (gpu_prices sl ! nat g) + p"
    by (simp add: committed_map_gpu_entry [OF assms] entry_commit_def bid_entry_def)
  finally show ?thesis .
qed

lemma map_of_notify_outbid:
  assumes "\<And>usr q. f (usr\<lparr>outbid_notification_queue := q\<rparr>) = f usr"
  shows "map_option f (map_of (notify_outbid sid n us) k) = map_option f (map_of us k)"
  using assms by (auto simp: notify_outbid_def map_of_map_entry split: option.splits)

lemma map_of_fold_notify_outbid:
  assumes "\<And>usr q. f (usr\<lparr>outbid_notification_queue := q\<rparr>) = f usr"
  shows "map_option f (map_of (fold (notify_outbid sid) ns us) k) = map_option f (map_of us k)"
  by (induction ns arbitrary: us) (simp_all add: map_of_notify_outbid [OF assms])

lemma users_apply_bid:
  assumes "\<And>usr q. f (usr\<lparr>outbid_notification_queue := q\<rparr>) = f usr"
  shows "map_option f (map_of (users (apply_bid u wk sk g p ts s)) k) = map_option f (map_of (users s) k)"
  by (simp add: apply_bid_def Let_def map_of_fold_notify_outbid [OF assms])

lemma user_balance_apply_bid [simp]:
  "user_balance (apply_bid u wk sk g p ts s) k = user_balance s k"
  using users_apply_bid [of balance u wk sk g p ts s k]
  by (auto simp: user_balance_def split: option.splits)

lemma session_apply_bid:
  "get_session_user (apply_bid u wk sk g p ts s) k = None \<longleftrightarrow> get_session_user s k = None"
  using users_apply_bid [of enabled u wk sk g p ts s k]
  by (cases "map_of (users s) k"; cases "map_of (users (apply_bid u wk sk g p ts s)) k")
     (auto simp: get_session_user_def)

lemma place_bid_accepted_iff:
  assumes "get_session_user s u \<noteq> None" and "0 \<le> user_balance s u"
  shows "\<not> isl (fst (place_bid u p now s)) \<longleftrightarrow> bid_admissible u p s"
proof -
  obtain usr where usr: "map_of (users s) u = Some usr" "enabled usr"
    using assms(1) by (auto simp: get_session_user_def split: option.splits if_splits)
  with assms(2) have "py_int (balance usr) = \<lfloor>balance usr\<rfloor>"
    by (simp add: py_int_def user_balance_def)
  with usr show ?thesis
    by (cases p)
       (auto simp: place_bid_def bid_admissible_def get_session_user_def user_balance_def
          lookup_entry_def NUM_GPUS_def Let_def split: option.splits)
qed

lemma place_bid_accepted_state:
  assumes "place_bid u (wk, sk, g) now s = (Inr r, s')"
  obtains d sl usr where
    "get_session_user s u = Some usr" and "0 \<le> g" and "g < NUM_GPUS"
    and "map_of (days s) wk = Some d" and "status d = Open"
    and "map_of (slots d) sk = Some sl" and "nat g < length (gpu_prices sl)"
    and "(sk, g) \<notin> set (reserved_for s wk)"
    and "committed_for_user s u - entry_commit u (gpu_prices sl ! nat g)
           + (price (gpu_prices sl ! nat g) + 1) \<le> py_int (balance usr)"
    and "r = (price (gpu_prices sl ! nat g) + 1, u)"
    and "s' = (apply_bid u wk sk g (price (gpu_prices sl ! nat g) + 1) now s)
                \<lparr>bid_log := truncate_log (bid_log (apply_bid u wk sk g
                     (price (gpu_prices sl ! nat g) + 1) now s))\<rparr>"
proof -
  from assms obtain usr where usr: "get_session_user s u = Some usr"
    by (cases "get_session_user s u") (auto simp: place_bid_def)
  from assms usr have rng: "0 \<le> g" "g < NUM_GPUS"
    by (auto simp: place_bid_def split: if_splits)
  from assms usr rng obtain d where d: "map_of (days s) wk = Some d"
    by (cases "map_of (days s) wk") (auto simp: place_bid_def)
  from assms usr rng d have st: "status d = Open"
    by (auto simp: place_bid_def split: if_splits)
  from assms usr rng d st obtain sl where sl: "map_of (slots d) sk = Some sl"
    by (cases "map_of (slots d) sk") (auto simp: place_bid_def)
  from assms usr rng d st sl have len: "nat g < length (gpu_prices sl)"
    by (auto simp: place_bid_def split: if_splits)
  from assms usr rng d st sl len have res: "(sk, g) \<notin> set (reserved_for s wk)"
    by (auto simp: place_bid_def Let_def split: if_splits)
  from assms usr rng d st sl len res
  have "committed_for_user s u - entry_commit u (gpu_prices sl ! nat g)
           + (price (gpu_prices sl ! nat g) + 1) \<le> py_int (balance usr)"
    and "r = (price (gpu_prices sl ! nat g) + 1, u)"
    and "s' = (apply_bid u wk sk g (price (gpu_prices sl ! nat g) + 1) now s)
                \<lparr>bid_log := truncate_log (bid_log (apply_bid u wk sk g
                     (price (gpu_prices sl ! nat g) + 1) now s))\<rparr>"
    by (auto simp: place_bid_def Let_def entry_commit_def split: if_splits)
  with usr rng d st sl len res show ?thesis
    by (rule that)
qed

lemma committed_bid_log_update [simp]:
  "committed_for_user (s\<lparr>bid_log := l\<rparr>) u = committed_for_user s u"
  by (simp add: committed_for_user_def find_days_by_status_def)

lemma user_balance_bid_log_update [simp]:
  "user_balance (s\<lparr>bid_log := l\<rparr>) u = user_balance s u"
  by (simp add: user_balance_def)

lemma session_bid_log_update [simp]:
  "get_session_user (s\<lparr>bid_log := l\<rparr>) u = get_session_user s u"
  by (simp add: get_session_user_def)

lemma place_bid_accepted_after:
  assumes "place_bid u p now s = (Inr r, s')" and "0 \<le> user_balance s u"
  shows "committed_for_user s' u \<le> \<lfloor>user_balance s' u\<rfloor>
       \<and> user_balance s' u = user_balance s u \<and> get_session_user s' u \<noteq> None"
proof -
  obtain wk sk g where p: "p = (wk, sk, g)"
    by (cases p)
  from assms(1) [unfolded p]
  obtain d sl usr where usr: "get_session_user s u = Some usr"
    and d: "map_of (days s) wk = Some d" "status d = Open" "map_of (slots d) sk = Some sl"
      "nat g < length (gpu_prices sl)"
    and le: "committed_for_user s u - entry_commit u (gpu_prices sl ! nat g)
              + (price (gpu_prices sl ! nat g) + 1) \<le> py_int (balance usr)"
    and s': "s' = (apply_bid u wk sk g (price (gpu_prices sl ! nat g) + 1) now s)
                  \<lparr>bid_log := truncate_log (bid_log (apply_bid u wk sk g
                       (price (gpu_prices sl ! nat g) + 1) now s))\<rparr>"
    by (rule place_bid_accepted_state)
  from usr have bal: "user_balance s u = balance usr"
    by (auto simp: get_session_user_def user_balance_def split: option.splits if_splits)
  with assms(2) have floor: "py_int (balance usr) = \<lfloor>user_balance s u\<rfloor>"
    by (simp add: py_int_def)
  have "committed_for_user s' u
      = committed_for_user s u - entry_commit u (gpu_prices sl ! nat g)
          + (price (gpu_prices sl ! nat g) + 1)"
    unfolding s' by (simp add: committed_apply_bid [OF d])
  moreover have "user_balance s' u = user_balance s u"
    unfolding s' by simp
  moreover have "get_session_user s' u \<noteq> None"
    unfolding s' using usr by (simp add: session_apply_bid)
  ultimately show ?thesis
    using le floor by simp
qed

lemma place_bids_committed:
  assumes "place_bids u bs s = Some s'" and "bs \<noteq> []" and "0 \<le> user_balance s u"
  shows "committed_for_user s' u \<le> \<lfloor>user_balance s' u\<rfloor>"
  using assms
proof (induction bs arbitrary: s)
  case Nil
  then show ?case by simp
next
  case (Cons b bs)
  obtain p now where b: "b = (p, now)"
    by (cases b)
  from Cons.prems(1) b obtain r s1 where
    step: "place_bid u p now s = (Inr r, s1)" and rest: "place_bids u bs s1 = Some s'"
    by (auto split: prod.splits sum.splits)
  note after = place_bid_accepted_after [OF step Cons.prems(3)]
  show ?case
  proof (cases "bs = []")
    case True
    from after have "committed_for_user s1 u \<le> \<lfloor>user_balance s1 u\<rfloor>" by blast
    with rest True show ?thesis by simp
  next
    case False
    from after Cons.prems(3) have "0 \<le> user_balance s1 u" by simp
    with Cons.IH [OF rest False] show ?thesis .
  qed
qed

section \<open>Day advancement: payouts, budgets and the calendar\<close>

lemma distinct_fold_add_payout:
  "distinct (map fst p) \<Longrightarrow> distinct (map fst (fold add_payout es p))"
  by (induction es arbitrary: p) (auto simp: add_payout_def distinct_update split: option.splits)

lemma map_of_add_payout:
  "map_of (add_payout e p) name =
     (if name \<noteq> [] \<and> winner e = Some name
      then Some ((case map_of p name of None \<Rightarrow> 0 | Some a \<Rightarrow> a) + of_int (price e))
      else map_of p name)"
  by (auto simp: add_payout_def update_conv' split: option.splits)

lemma payout_of_none: "\<not> wins_in name es \<Longrightarrow> payout_of name es = 0"
  by (induction es) (auto simp: wins_in_def payout_of_def)

lemma map_of_fold_add_payout:
  "map_of (fold add_payout es p) name =
     (if name \<noteq> [] \<and> wins_in name es
      then Some ((case map_of p name of None \<Rightarrow> 0 | Some a \<Rightarrow> a) + payout_of name es)
      else map_of p name)"
proof (induction es arbitrary: p)
  case Nil
  show ?case by (simp add: wins_in_def)
next
  case (Cons e es)
  have none: "(\<Sum>e\<leftarrow>es. if winner e = Some name then rat_of_int (price e) else 0) = 0"
    if "\<not> list_ex (\<lambda>e. winner e = Some name) es"
    using payout_of_none [of name es] that by (simp add: wins_in_def payout_of_def)
  show ?case
    by (auto simp: Cons.IH map_of_add_payout wins_in_def payout_of_def none)
qed

lemma compute_payouts_fold:
  "compute_payouts d = fold add_payout (day_entries d) []"
proof -
  have "fold (\<lambda>(k, sl) payouts. fold add_payout (gpu_prices sl) payouts) xs p
      = fold add_payout (concat (map (\<lambda>(k, sl). gpu_prices sl) xs)) p" for xs p
    by (induction xs arbitrary: p) (auto split: prod.splits)
  then show ?thesis
    by (simp add: compute_payouts_def day_entries_def)
qed

lemma map_of_compute_payouts:
  "map_of (compute_payouts d) name =
     (if name \<noteq> [] \<and> wins_in name (day_entries d) then Some (payout_of name (day_entries d))
      else None)"
  by (simp add: compute_payouts_fold map_of_fold_add_payout)

lemma distinct_compute_payouts: "distinct (map fst (compute_payouts d))"
  by (simp add: compute_payouts_fold distinct_fold_add_payout)

lemma map_of_deduct_payouts:
  assumes "distinct (map fst p)"
  shows "map_of (deduct_payouts p us) name =
     (case map_of p name of
        None \<Rightarrow> map_of us name
      | Some amount \<Rightarrow> map_option (charged amount) (map_of us name))"
  using assms
proof (induction p arbitrary: us)
  case Nil
  show ?case by (simp add: deduct_payouts_def)
next
  case (Cons item p)
  obtain n a where item: "item = (n, a)" by (cases item)
  from Cons.prems have d: "distinct (map fst p)" and notin: "map_of p n = None"
    by (auto simp: item map_of_eq_None_iff)
  have step: "deduct_payouts ((n, a) # p) us
      = deduct_payouts p (AList.map_entry n (charged a) us)"
    by (simp add: deduct_payouts_def charged_def [abs_def])
  show ?case
    using notin
    by (auto simp: item step Cons.IH [OF d] map_of_map_entry split: option.splits)
qed

lemma map_of_add_daily_budget:
  "map_of (add_daily_budget k us) name = map_option (credited k) (map_of us name)"
  by (induction us) (auto simp: add_daily_budget_def credited_def)

lemma find_day_by_status_SomeD:
  assumes "find_day_by_status st s = Some (k, d)"
  shows "(k, d) \<in> set (days s)" and "status d = st"
  using assms by (auto simp: find_day_by_status_def find_Some_iff in_set_conv_nth)

lemma find_days_by_status_set:
  "set (find_days_by_status st s) = {(k, d). (k, d) \<in> set (days s) \<and> status d = st}"
  by (auto simp: find_days_by_status_def)

lemma find_days_by_status_hd:
  assumes "find_days_by_status st s = (o1, od) # rest"
  shows "(o1, od) \<in> set (days s)" and "status od = st"
    and "\<forall>(k, d)\<in>set (days s). status d = st \<longrightarrow> o1 \<le> k"
proof -
  have mem: "(o1, od) \<in> set (find_days_by_status st s)"
    by (simp add: assms)
  then show "(o1, od) \<in> set (days s)" and "status od = st"
    by (auto simp: find_days_by_status_set)
  have "sorted (map fst (find_days_by_status st s))"
    by (simp add: find_days_by_status_def)
  then have "\<forall>x\<in>set rest. o1 \<le> fst x"
    by (simp add: assms)
  moreover have "set (find_days_by_status st s) = insert (o1, od) (set rest)"
    by (simp add: assms)
  ultimately show "\<forall>(k, d)\<in>set (days s). status d = st \<longrightarrow> o1 \<le> k"
    using find_days_by_status_set [of st s] by fastforce
qed

lemma distinct_map_of:
  "distinct (map fst xs) \<Longrightarrow> (k, v) \<in> set xs \<Longrightarrow> map_of xs k = Some v"
  by simp

lemma format_day_plus_days:
  assumes "0 \<le> th" and "th < 24"
  shows "format_day (parse_day th k + n * 86400) = k + n"
proof -
  have "(k * 86400 + th * 3600 + n * 86400) div 86400 = k + n"
    using assms by (simp add: div_pos_pos_trivial algebra_simps)
  then show ?thesis
    by (simp add: format_day_def parse_day_def date_of_def)
qed

lemma advance_day_cycle_eq:
  assumes "0 \<le> day_transition_hour s" and "day_transition_hour s < 24"
      and "find_days_by_status Open s = (o1, od) # rest"
      and "find_day_by_status Executing s = Some (e, ed)"
  shows "advance_day_cycle now s =
     (Inr (day_start od, o1 + 6),
      s\<lparr>users := add_daily_budget o1 (deduct_payouts (compute_payouts od) (users s)),
        days := rolled_days now e o1 (days s)\<rparr>)"
proof -
  have key: "format_day (parse_day (day_transition_hour s) o1 + 518400) = o1 + 6"
    using format_day_plus_days [OF assms(1,2), of o1 6] by simp
  show ?thesis
    using assms(3,4)
    by (simp add: advance_day_cycle_def Let_def key ensure_day_exists_def rolled_days_def
        delete_conv')
qed

lemma map_of_rolled_days:
  assumes "map_of ds e = Some ed" and "map_of ds o1 = Some od" and "e \<noteq> o1"
  shows "map_of (rolled_days now e o1 ds) k =
     (if k = o1 + 6 then Some (new_day (o1 + 6) Open)
      else if k = o1 then Some (od\<lparr>status := Executing, finalized_at := Some now\<rparr>)
      else if k = e then Some (ed\<lparr>status := Final,
             finalized_at := (if finalized_at ed = None then Some now else finalized_at ed)\<rparr>)
      else map_of ds k)"
  using assms
  by (simp add: rolled_days_def update_conv' delete_conv' map_of_map_entry)

section \<open>Bulk bid: validation, cost and execution\<close>

lemma set_unique_bids: "set (unique_bids seen xs) = set xs - set seen"
  by (induction seen xs rule: unique_bids.induct) auto

lemma distinct_unique_bids: "distinct (unique_bids seen xs)"
  by (induction seen xs rule: unique_bids.induct) (auto simp: set_unique_bids)

lemma set_normalised_bids [simp]: "set (normalised_bids bs) = set bs"
  by (simp add: normalised_bids_def set_unique_bids)

lemma distinct_normalised_bids [simp]: "distinct (normalised_bids bs)"
  by (simp add: normalised_bids_def distinct_unique_bids)

lemma lock_keys_ok_iff:
  "\<not> isl (lock_keys bs) \<longleftrightarrow> (\<forall>(wk, sk, g)\<in>set bs. 0 \<le> g \<and> g < 8)"
  by (induction bs rule: lock_keys.induct) (auto simp: NUM_GPUS_def split: sum.splits)

lemma validate_bids_reject:
  "\<not> bid_target_ok s b \<Longrightarrow> isl (validate_bids s u (b # bs))"
  by (cases b) (auto simp: bid_target_ok_def lookup_entry_def Let_def split: option.splits sum.splits)

lemma validate_bids_step:
  "bid_target_ok s b \<Longrightarrow>
     validate_bids s u (b # bs)
       = (case validate_bids s u bs of
            Inl e \<Rightarrow> Inl e
          | Inr vs \<Rightarrow> Inr (validation_of u s b # vs))"
  by (cases b)
     (auto simp: bid_target_ok_def lookup_entry_def entry_at_def validation_of_def Let_def
        split: option.splits sum.splits)

lemma validate_bids_ok_iff:
  "\<not> isl (validate_bids s u bs) \<longleftrightarrow> list_all (bid_target_ok s) bs"
proof (induction bs)
  case Nil
  show ?case by simp
next
  case (Cons b bs)
  show ?case
  proof (cases "bid_target_ok s b")
    case True
    with Cons.IH show ?thesis
      by (cases "validate_bids s u bs") (simp_all add: validate_bids_step)
  next
    case False
    then show ?thesis
      by (simp add: validate_bids_reject)
  qed
qed

lemma validate_bids_result:
  "validate_bids s u bs = Inr vs \<Longrightarrow> vs = map (validation_of u s) bs"
proof (induction bs arbitrary: vs)
  case Nil
  then show ?case by simp
next
  case (Cons b bs)
  have ok: "bid_target_ok s b"
    using Cons.prems validate_bids_reject [of s b u bs] by auto
  with Cons.prems obtain vs' where "validate_bids s u bs = Inr vs'" "vs = validation_of u s b # vs'"
    by (auto simp: validate_bids_step split: sum.splits)
  with Cons.IH show ?case by simp
qed

lemma check_total_cost_fold:
  "fold (\<lambda>v (c, total_cost).
           ((if v_is_mine v then c - v_current_price v else c), total_cost + v_new_price v))
        vs (c0, t0)
   = (c0 - (\<Sum>v\<leftarrow>vs. if v_is_mine v then v_current_price v else 0),
      t0 + (\<Sum>v\<leftarrow>vs. v_new_price v))"
  by (induction vs arbitrary: c0 t0) auto

lemma check_total_cost_sum:
  "check_total_cost vs c = (c', t) \<Longrightarrow>
     c' + t = c + (\<Sum>v\<leftarrow>vs. v_new_price v - (if v_is_mine v then v_current_price v else 0))"
  by (auto simp: check_total_cost_def check_total_cost_fold sum_list_subtractf)

lemma bulk_total_validations:
  assumes "\<forall>b\<in>set bs. entry_at s b \<noteq> None"
  shows "(\<Sum>v\<leftarrow>map (validation_of u s) bs.
            v_new_price v - (if v_is_mine v then v_current_price v else 0))
       = bulk_total u s bs"
  using assms
  by (induction bs) (auto simp: bulk_total_def validation_of_def entry_commit_def)

lemma days_eq_lookup_entry:
  "days s = days s' \<Longrightarrow> lookup_entry s d k i = lookup_entry s' d k i"
  by (simp add: lookup_entry_def)

lemma lookup_entry_apply_bid:
  "lookup_entry (apply_bid u wk sk g p ts s) d k i =
     (if d = wk \<and> k = sk \<and> i = nat g
      then map_option (bid_entry u p ts) (lookup_entry s wk sk (nat g))
      else lookup_entry s d k i)"
  using days_eq_lookup_entry [OF days_apply_bid, of u wk sk g p ts s d k i]
  by (simp add: lookup_entry_map_gpu_entry)

lemma bid_log_apply_bid:
  "bid_log (apply_bid u wk sk g p ts s) =
     bid_log s @ [\<lparr>log_username = u, log_week = wk, log_slot = sk, log_gpu = g, log_price = p,
                   log_timestamp = ts\<rparr>]"
  by (simp add: apply_bid_def Let_def map_gpu_entry_def)

lemma bid_log_execute_bids:
  "bid_log (execute_bids u ts vs s) = bid_log s @ map (log_of u ts) vs"
  unfolding execute_bids_def
  by (induction vs arbitrary: s) (simp_all add: bid_log_apply_bid log_of_def)

lemma entry_at_execute_bids_other:
  assumes "b \<notin> set bs" and "\<forall>(wk, sk, g)\<in>insert b (set bs). 0 \<le> g"
  shows "entry_at (execute_bids u ts (map (validation_of u s0) bs) s) b = entry_at s b"
  using assms
proof (induction bs arbitrary: s)
  case Nil
  show ?case by (simp add: execute_bids_def)
next
  case (Cons c bs)
  obtain wk sk g where c: "c = (wk, sk, g)" by (cases c)
  obtain wk' sk' g' where b: "b = (wk', sk', g')" by (cases b)
  from Cons.prems have ne: "b \<noteq> c" and g: "0 \<le> g" "0 \<le> g'"
    by (auto simp: b c)
  have step: "entry_at (apply_bid u wk sk g p ts s) b = entry_at s b" for p
    using ne g by (auto simp: entry_at_def b c lookup_entry_apply_bid)
  have unfold: "execute_bids u ts (map (validation_of u s0) (c # bs)) s
      = execute_bids u ts (map (validation_of u s0) bs)
          (apply_bid u wk sk g (v_new_price (validation_of u s0 c)) ts s)"
    by (simp add: execute_bids_def c validation_of_def)
  have "entry_at (execute_bids u ts (map (validation_of u s0) bs)
           (apply_bid u wk sk g (v_new_price (validation_of u s0 c)) ts s)) b
      = entry_at (apply_bid u wk sk g (v_new_price (validation_of u s0 c)) ts s) b"
    using Cons.prems by (intro Cons.IH) auto
  then show ?case
    by (simp only: unfold step)
qed

lemma entry_at_execute_bids:
  assumes "distinct bs" and "b \<in> set bs" and "\<forall>(wk, sk, g)\<in>set bs. 0 \<le> g"
  shows "entry_at (execute_bids u ts (map (validation_of u s0) bs) s) b
       = map_option (bid_entry u (price (the (entry_at s0 b)) + 1) ts) (entry_at s b)"
  using assms
proof (induction bs arbitrary: s)
  case Nil
  then show ?case by simp
next
  case (Cons c bs)
  obtain wk sk g where c: "c = (wk, sk, g)" by (cases c)
  let ?s1 = "apply_bid u wk sk g (v_new_price (validation_of u s0 c)) ts s"
  have unfold: "execute_bids u ts (map (validation_of u s0) (c # bs)) s
      = execute_bids u ts (map (validation_of u s0) bs) ?s1"
    by (simp add: execute_bids_def c validation_of_def)
  show ?case
  proof (cases "b = c")
    case True
    with Cons.prems have "b \<notin> set bs" and "\<forall>(wk, sk, g)\<in>insert b (set bs). 0 \<le> g"
      by auto
    then have "entry_at (execute_bids u ts (map (validation_of u s0) bs) ?s1) b = entry_at ?s1 b"
      by (rule entry_at_execute_bids_other)
    also have "\<dots> = map_option (bid_entry u (price (the (entry_at s0 b)) + 1) ts) (entry_at s b)"
      using True by (simp add: entry_at_def c lookup_entry_apply_bid validation_of_def)
    finally show ?thesis
      by (simp only: unfold)
  next
    case False
    with Cons.prems have "distinct bs" "b \<in> set bs" "\<forall>(wk, sk, g)\<in>set bs. 0 \<le> g"
      by auto
    then have "entry_at (execute_bids u ts (map (validation_of u s0) bs) ?s1) b
      = map_option (bid_entry u (price (the (entry_at s0 b)) + 1) ts) (entry_at ?s1 b)"
      by (rule Cons.IH)
    moreover have "entry_at ?s1 b = entry_at s b"
    proof -
      obtain wk' sk' g' where b: "b = (wk', sk', g')" by (cases b)
      from Cons.prems have "0 \<le> g" "0 \<le> g'" by (auto simp: b c)
      with False show ?thesis
        by (auto simp: entry_at_def b c lookup_entry_apply_bid)
    qed
    ultimately show ?thesis
      by (simp only: unfold)
  qed
qed

lemma session_user_balance:
  "get_session_user s u = Some usr \<Longrightarrow> user_balance s u = balance usr"
  by (auto simp: get_session_user_def user_balance_def split: option.splits if_splits)

lemma list_all_bid_valid:
  "list_all (bid_valid s) bs \<longleftrightarrow>
     (\<forall>(wk, sk, g)\<in>set bs. 0 \<le> g \<and> g < 8) \<and> list_all (bid_target_ok s) bs"
  by (auto simp: list_all_iff bid_valid_def)

lemma list_all_normalised_bids:
  "list_all P (normalised_bids bs) = list_all P bs"
  by (simp add: list_all_iff)

lemma place_bulk_bids_rejected:
  assumes "get_session_user s u = Some usr" and "\<not> bulk_admissible u bids_in s"
  shows "\<exists>e. place_bulk_bids u bids_in now s = (Inl e, s)"
proof (cases "bids_in = []")
  case True
  with assms(1) show ?thesis
    by (simp add: place_bulk_bids_def)
next
  case ne: False
  let ?bs = "normalised_bids bids_in"
  show ?thesis
  proof (cases "lock_keys ?bs")
    case (Inl e)
    with assms(1) ne show ?thesis
      by (simp add: place_bulk_bids_def normalised_bids_def [symmetric])
  next
    case lk: (Inr ks)
    show ?thesis
    proof (cases "validate_bids s u ?bs")
      case (Inl e)
      with assms(1) ne lk show ?thesis
        by (simp add: place_bulk_bids_def normalised_bids_def [symmetric])
    next
      case (Inr vs)
      then have vs: "vs = map (validation_of u s) ?bs"
        by (rule validate_bids_result)
      from lk have range: "\<forall>(wk, sk, g)\<in>set bids_in. 0 \<le> g \<and> g < 8"
        using lock_keys_ok_iff [of ?bs] by simp
      from Inr have targets: "list_all (bid_target_ok s) bids_in"
        using validate_bids_ok_iff [of s u ?bs] by (simp add: list_all_normalised_bids)
      then have "\<forall>b\<in>set ?bs. entry_at s b \<noteq> None"
        by (auto simp: list_all_iff bid_target_ok_def entry_at_def)
      then have total: "(\<Sum>v\<leftarrow>vs. v_new_price v - (if v_is_mine v then v_current_price v else 0))
          = bulk_total u s ?bs"
        unfolding vs by (rule bulk_total_validations)
      obtain c t where ct: "check_total_cost vs (committed_for_user s u) = (c, t)"
        by (cases "check_total_cost vs (committed_for_user s u)")
      from check_total_cost_sum [OF ct] total
      have sum: "c + t = committed_for_user s u + bulk_total u s ?bs"
        by simp
      from assms(2) ne range targets
      have "\<not> committed_for_user s u + bulk_total u s ?bs \<le> py_int (user_balance s u)"
        by (simp add: bulk_admissible_def list_all_bid_valid)
      with sum have "c + t > py_int (balance usr)"
        by (simp add: session_user_balance [OF assms(1)])
      with assms(1) ne lk Inr ct show ?thesis
        by (simp add: place_bulk_bids_def normalised_bids_def [symmetric])
    qed
  qed
qed

lemma place_bulk_bids_accepted:
  assumes "get_session_user s u = Some usr" and "bulk_admissible u bids_in s"
  shows "place_bulk_bids u bids_in now s =
           (Inr (bulk_results (map (validation_of u s) (normalised_bids bids_in))),
            (execute_bids u now (map (validation_of u s) (normalised_bids bids_in)) s)
              \<lparr>bid_log := truncate_log (bid_log (execute_bids u now
                  (map (validation_of u s) (normalised_bids bids_in)) s))\<rparr>)"
proof -
  let ?bs = "normalised_bids bids_in"
  from assms(2) have ne: "bids_in \<noteq> []"
    and range: "\<forall>(wk, sk, g)\<in>set bids_in. 0 \<le> g \<and> g < 8"
    and targets: "list_all (bid_target_ok s) bids_in"
    and cost: "committed_for_user s u + bulk_total u s ?bs \<le> py_int (user_balance s u)"
    by (simp_all add: bulk_admissible_def list_all_bid_valid)
  from range obtain ks where lk: "lock_keys ?bs = Inr ks"
    using lock_keys_ok_iff [of ?bs] by (cases "lock_keys ?bs") auto
  from targets obtain vs where val: "validate_bids s u ?bs = Inr vs"
    using validate_bids_ok_iff [of s u ?bs]
    by (cases "validate_bids s u ?bs") (auto simp: list_all_normalised_bids)
  then have vs: "vs = map (validation_of u s) ?bs"
    by (rule validate_bids_result)
  from targets have "\<forall>b\<in>set ?bs. entry_at s b \<noteq> None"
    by (auto simp: list_all_iff bid_target_ok_def entry_at_def)
  then have total: "(\<Sum>v\<leftarrow>vs. v_new_price v - (if v_is_mine v then v_current_price v else 0))
      = bulk_total u s ?bs"
    unfolding vs by (rule bulk_total_validations)
  obtain c t where ct: "check_total_cost vs (committed_for_user s u) = (c, t)"
    by (cases "check_total_cost vs (committed_for_user s u)")
  from check_total_cost_sum [OF ct] total cost
  have "\<not> c + t > py_int (balance usr)"
    by (simp add: session_user_balance [OF assms(1)])
  with assms(1) ne lk val ct show ?thesis
    by (simp add: place_bulk_bids_def normalised_bids_def [symmetric] vs Let_def)
qed

lemma entry_at_bid_log_update [simp]: "entry_at (s\<lparr>bid_log := l\<rparr>) b = entry_at s b"
  by (cases b) (simp add: entry_at_def lookup_entry_def)

section \<open>Bulk release: the loop over the items\<close>

lemma validate_release_items_ok:
  "list_all gpu_in_range bs \<Longrightarrow> validate_release_items bs = Inr bs"
  by (induction bs rule: validate_release_items.induct) (auto simp: gpu_in_range_def NUM_GPUS_def)

lemma validate_release_items_bad:
  "\<not> list_all gpu_in_range bs \<Longrightarrow> validate_release_items bs = Inl Gpu_out_of_range"
  by (induction bs rule: validate_release_items.induct)
     (auto simp: gpu_in_range_def NUM_GPUS_def split: sum.splits)

lemma release_one_eq:
  "release_one u nh (wk, sk, g) (s, n) =
     (if releasable u nh s (wk, sk, g) then (map_gpu_entry wk sk (nat g) clear_entry s, n + 1)
      else (s, n))"
  by (auto simp: release_one_def releasable_def lookup_entry_def split: option.splits)

lemma map_of_days_map_gpu_entry:
  "map_option status (map_of (days (map_gpu_entry d k g f s)) wk) = map_option status (map_of (days s) wk)"
  by (auto simp: map_gpu_entry_def map_of_map_entry split: option.splits)

lemma releasable_map_gpu_entry_other:
  assumes "(wk, sk, nat g) \<noteq> (d, k, i)"
  shows "releasable u nh (map_gpu_entry d k i f s) (wk, sk, g) = releasable u nh s (wk, sk, g)"
proof -
  have "(case map_of (days (map_gpu_entry d k i f s)) wk of None \<Rightarrow> False | Some d \<Rightarrow> status d = Executing)
      = (case map_of (days s) wk of None \<Rightarrow> False | Some d \<Rightarrow> status d = Executing)"
    using map_of_days_map_gpu_entry [of d k i f s wk]
    by (auto split: option.splits)
  moreover have "lookup_entry (map_gpu_entry d k i f s) wk sk (nat g) = lookup_entry s wk sk (nat g)"
    using assms by (auto simp: lookup_entry_map_gpu_entry)
  ultimately show ?thesis
    by (simp add: releasable_def)
qed

lemma fold_release_one:
  assumes "distinct bs" and "list_all gpu_in_range bs"
  shows "fold (release_one u nh) bs (s, n)
       = (release_all (filter (releasable u nh s) bs) s, n + length (filter (releasable u nh s) bs))"
  using assms
proof (induction bs arbitrary: s n)
  case Nil
  show ?case by (simp add: release_all_def)
next
  case (Cons c bs)
  obtain wk sk g where c: "c = (wk, sk, g)" by (cases c)
  from Cons.prems have gc: "gpu_in_range c" and d: "distinct bs" and r: "list_all gpu_in_range bs"
    and notin: "c \<notin> set bs"
    by simp_all
  from gc have g: "0 \<le> g"
    by (simp add: c gpu_in_range_def)
  show ?case
  proof (cases "releasable u nh s c")
    case False
    with Cons.IH [OF d r] show ?thesis
      by (simp add: c release_one_eq)
  next
    case True
    let ?s1 = "map_gpu_entry wk sk (nat g) clear_entry s"
    have same: "releasable u nh ?s1 b = releasable u nh s b" if "b \<in> set bs" for b
    proof -
      obtain wk' sk' g' where b: "b = (wk', sk', g')" by (cases b)
      from that r have "gpu_in_range b" by (simp add: list_all_iff)
      then have "0 \<le> g'" by (simp add: b gpu_in_range_def)
      with that notin g have "(wk', sk', nat g') \<noteq> (wk, sk, nat g)"
        by (auto simp: b c eq_nat_nat_iff)
      then show ?thesis
        unfolding b by (rule releasable_map_gpu_entry_other)
    qed
    then have filt: "filter (releasable u nh ?s1) bs = filter (releasable u nh s) bs"
      by (intro filter_cong) auto
    from True Cons.IH [OF d r, of ?s1 "n + 1"] show ?thesis
      by (simp add: c release_one_eq filt release_all_def)
  qed
qed

lemma users_release_all [simp]: "users (release_all bs s) = users s"
  unfolding release_all_def by (induction bs arbitrary: s) auto

lemma entry_at_release_all:
  assumes "list_all gpu_in_range (b # bs)"
  shows "entry_at (release_all bs s) b
       = (if b \<in> set bs then map_option clear_entry (entry_at s b) else entry_at s b)"
  using assms
proof (induction bs arbitrary: s)
  case Nil
  show ?case by (simp add: release_all_def)
next
  case (Cons c bs)
  obtain wk sk g where c: "c = (wk, sk, g)" by (cases c)
  obtain wk' sk' g' where b: "b = (wk', sk', g')" by (cases b)
  let ?s1 = "map_gpu_entry wk sk (nat g) clear_entry s"
  from Cons.prems have gb: "gpu_in_range b" "gpu_in_range c" and r: "list_all gpu_in_range (b # bs)"
    by simp_all
  from gb have g: "0 \<le> g" "0 \<le> g'"
    by (simp_all add: b c gpu_in_range_def)
  have step: "entry_at ?s1 b = (if b = c then map_option clear_entry (entry_at s b) else entry_at s b)"
    using g by (auto simp: entry_at_def b c lookup_entry_map_gpu_entry eq_nat_nat_iff)
  have idem: "map_option clear_entry (map_option clear_entry x) = map_option clear_entry x" for x
    by (cases x) (simp_all add: clear_entry_def)
  have "entry_at (release_all (c # bs) s) b = entry_at (release_all bs ?s1) b"
    by (simp add: release_all_def c)
  also have "\<dots> = (if b \<in> set bs then map_option clear_entry (entry_at ?s1 b) else entry_at ?s1 b)"
    by (rule Cons.IH [OF r])
  finally have eq: "entry_at (release_all (c # bs) s) b
      = (if b \<in> set bs then map_option clear_entry (entry_at ?s1 b) else entry_at ?s1 b)" .
  show ?case
  proof (cases "b = c")
    case True
    with step have "entry_at ?s1 b = map_option clear_entry (entry_at s b)" by simp
    with eq True show ?thesis by (simp add: idem)
  next
    case False
    with step have "entry_at ?s1 b = entry_at s b" by simp
    with eq False show ?thesis by simp
  qed
qed

lemma release_slots_bulk_eq:
  assumes "get_session_user s u = Some usr" and "bs \<noteq> []"
      and "list_all gpu_in_range bs" and "distinct bs"
  shows "release_slots_bulk u bs now s =
     Some (Inr (released_count u now s bs,
                of_nat (released_count u now s bs) * RELEASE_REFUND_CREDITS,
                py_int (balance usr + of_nat (released_count u now s bs) * RELEASE_REFUND_CREDITS)),
           add_balance u (of_nat (released_count u now s bs) * RELEASE_REFUND_CREDITS)
             (release_all (filter (releasable u (hour_floor now + 3600) s) bs) s))"
  using assms
  by (simp add: release_slots_bulk_def validate_release_items_ok fold_release_one
      released_count_def Let_def)

lemma entry_at_add_balance [simp]: "entry_at (add_balance u a s) b = entry_at s b"
  by (cases b) (simp add: entry_at_def)

section \<open>Finalization: the loops over the tracking\<close>

lemma fin_entry_twice: "fin_entry uc' (fin_entry uc e) = fin_entry uc e"
  by (simp add: fin_entry_def)

lemma map_option_fin_entry_twice:
  "map_option (fin_entry uc') (map_option (fin_entry uc) x) = map_option (fin_entry uc) x"
  by (cases x) (simp_all add: fin_entry_twice)

lemma finalize_gpu_lookup:
  "lookup_entry (fst (finalize_gpu d k (g, uc) acc)) d' k' g' =
     (if d' = d \<and> k' = k \<and> g' = g then map_option (fin_entry uc) (lookup_entry (fst acc) d k g)
      else lookup_entry (fst acc) d' k' g')"
  by (cases acc)
     (auto simp: finalize_gpu_def lookup_entry_map_gpu_entry fin_entry_def split: option.splits)

lemma day_closed_map_gpu_entry [simp]:
  "day_closed (map_gpu_entry d k g f s) d' = day_closed s d'"
  using map_of_days_map_gpu_entry [of d k g f s d']
  by (auto simp: day_closed_def split: option.splits)

lemma lookup_slot_map_gpu_entry:
  "lookup_slot (map_gpu_entry d k g f s) d' k' = None \<longleftrightarrow> lookup_slot s d' k' = None"
  by (auto simp: lookup_slot_def map_gpu_entry_def map_of_map_entry split: option.splits)

lemma finalize_gpu_cases:
  "finalize_gpu d k (g, uc) (s, n) = (s, n) \<or>
   finalize_gpu d k (g, uc) (s, n)
     = (map_gpu_entry d k g (\<lambda>e. e\<lparr>actual_user := Some (most_frequent uc)\<rparr>) s, n + 1)"
  by (simp add: finalize_gpu_def split: option.splits)

lemma tracking_map_gpu_entry [simp]:
  "gpu_usage_tracking (map_gpu_entry d k g f s) = gpu_usage_tracking s"
  "day_transition_hour (map_gpu_entry d k g f s) = day_transition_hour s"
  by (simp_all add: map_gpu_entry_def)

lemma finalize_gpu_day_closed:
  "day_closed (fst (finalize_gpu d k item acc)) d' = day_closed (fst acc) d'"
proof -
  obtain g uc s n where eq: "item = (g, uc)" "acc = (s, n)"
    by (cases item; cases acc) auto
  from finalize_gpu_cases [of d k g uc s n] show ?thesis
    unfolding eq by (elim disjE) simp_all
qed

lemma finalize_gpu_lookup_slot:
  "lookup_slot (fst (finalize_gpu d k item acc)) d' k' = None \<longleftrightarrow> lookup_slot (fst acc) d' k' = None"
proof -
  obtain g uc s n where eq: "item = (g, uc)" "acc = (s, n)"
    by (cases item; cases acc) auto
  from finalize_gpu_cases [of d k g uc s n] show ?thesis
    unfolding eq by (elim disjE) (simp_all add: lookup_slot_map_gpu_entry)
qed

lemma finalize_gpu_tracking:
  "gpu_usage_tracking (fst (finalize_gpu d k item acc)) = gpu_usage_tracking (fst acc)"
proof -
  obtain g uc s n where eq: "item = (g, uc)" "acc = (s, n)"
    by (cases item; cases acc) auto
  from finalize_gpu_cases [of d k g uc s n] show ?thesis
    unfolding eq by (elim disjE) simp_all
qed

lemma finalize_gpu_transition_hour:
  "day_transition_hour (fst (finalize_gpu d k item acc)) = day_transition_hour (fst acc)"
proof -
  obtain g uc s n where eq: "item = (g, uc)" "acc = (s, n)"
    by (cases item; cases acc) auto
  from finalize_gpu_cases [of d k g uc s n] show ?thesis
    unfolding eq by (elim disjE) simp_all
qed

lemma fold_finalize_gpu_day_closed:
  "day_closed (fst (fold (finalize_gpu d k) gt acc)) d' = day_closed (fst acc) d'"
  by (induction gt arbitrary: acc) (simp_all add: finalize_gpu_day_closed)

lemma fold_finalize_gpu_lookup_slot:
  "lookup_slot (fst (fold (finalize_gpu d k) gt acc)) d' k' = None \<longleftrightarrow> lookup_slot (fst acc) d' k' = None"
  by (induction gt arbitrary: acc) (simp_all add: finalize_gpu_lookup_slot)

lemma fold_finalize_gpu_tracking:
  "gpu_usage_tracking (fst (fold (finalize_gpu d k) gt acc)) = gpu_usage_tracking (fst acc)"
  by (induction gt arbitrary: acc) (simp_all add: finalize_gpu_tracking)

lemma fold_finalize_gpu_transition_hour:
  "day_transition_hour (fst (fold (finalize_gpu d k) gt acc)) = day_transition_hour (fst acc)"
  by (induction gt arbitrary: acc) (simp_all add: finalize_gpu_transition_hour)

lemma fold_finalize_gpu_lookup:
  "lookup_entry (fst (fold (finalize_gpu d k) gt acc)) d' k' g' =
     (if d' = d \<and> k' = k
      then (case map_of gt g' of
              None \<Rightarrow> lookup_entry (fst acc) d' k' g'
            | Some uc \<Rightarrow> map_option (fin_entry uc) (lookup_entry (fst acc) d' k' g'))
      else lookup_entry (fst acc) d' k' g')"
proof (induction gt arbitrary: acc)
  case Nil
  show ?case by simp
next
  case (Cons item gt)
  obtain g uc where item: "item = (g, uc)" by (cases item)
  show ?case
    by (simp add: Cons.IH item finalize_gpu_lookup map_option_fin_entry_twice split: option.splits)
qed

lemma lookup_slot_None_entry:
  "lookup_slot s d k = None \<Longrightarrow> lookup_entry s d k g = None"
  by (auto simp: lookup_slot_def lookup_entry_def split: option.splits)

lemma finalize_slot_cases:
  "finalize_slot d (hour_floor now) (k, gt) acc = acc \<or>
   (slot_done now k \<and> finalize_slot d (hour_floor now) (k, gt) acc = fold (finalize_gpu d k) gt acc)"
  by (auto simp: finalize_slot_def slot_done_def split: option.splits)

lemma finalize_slot_lookup:
  "lookup_entry (fst (finalize_slot d (hour_floor now) (k, gt) acc)) d' k' g' =
     (if d' = d \<and> k' = k \<and> slot_done now k
      then (case map_of gt g' of
              None \<Rightarrow> lookup_entry (fst acc) d' k' g'
            | Some uc \<Rightarrow> map_option (fin_entry uc) (lookup_entry (fst acc) d' k' g'))
      else lookup_entry (fst acc) d' k' g')"
proof (cases "slot_done now k")
  case False
  then show ?thesis
    by (auto simp: finalize_slot_def slot_done_def split: option.splits)
next
  case True
  show ?thesis
  proof (cases "lookup_slot (fst acc) d k")
    case None
    from True None have "finalize_slot d (hour_floor now) (k, gt) acc = acc"
      by (auto simp: finalize_slot_def slot_done_def split: option.splits)
    with lookup_slot_None_entry [OF None] show ?thesis
      by (simp split: option.splits)
  next
    case (Some sl)
    with True have "finalize_slot d (hour_floor now) (k, gt) acc = fold (finalize_gpu d k) gt acc"
      by (auto simp: finalize_slot_def slot_done_def split: option.splits)
    with True show ?thesis
      by (simp add: fold_finalize_gpu_lookup)
  qed
qed

lemma finalize_slot_day_closed:
  "day_closed (fst (finalize_slot d (hour_floor now) item acc)) d' = day_closed (fst acc) d'"
proof -
  obtain k gt where item: "item = (k, gt)" by (cases item)
  from finalize_slot_cases [of d now k gt acc] show ?thesis
    unfolding item by (elim disjE conjE) (simp_all add: fold_finalize_gpu_day_closed)
qed

lemma finalize_slot_tracking:
  "gpu_usage_tracking (fst (finalize_slot d (hour_floor now) item acc)) = gpu_usage_tracking (fst acc)"
proof -
  obtain k gt where item: "item = (k, gt)" by (cases item)
  from finalize_slot_cases [of d now k gt acc] show ?thesis
    unfolding item by (elim disjE conjE) (simp_all add: fold_finalize_gpu_tracking)
qed

lemma finalize_slot_transition_hour:
  "day_transition_hour (fst (finalize_slot d (hour_floor now) item acc)) = day_transition_hour (fst acc)"
proof -
  obtain k gt where item: "item = (k, gt)" by (cases item)
  from finalize_slot_cases [of d now k gt acc] show ?thesis
    unfolding item by (elim disjE conjE) (simp_all add: fold_finalize_gpu_transition_hour)
qed

lemma fold_finalize_slot_day_closed:
  "day_closed (fst (fold (finalize_slot d (hour_floor now)) st acc)) d' = day_closed (fst acc) d'"
  by (induction st arbitrary: acc) (simp_all add: finalize_slot_day_closed)

lemma fold_finalize_slot_tracking:
  "gpu_usage_tracking (fst (fold (finalize_slot d (hour_floor now)) st acc)) = gpu_usage_tracking (fst acc)"
  by (induction st arbitrary: acc) (simp_all add: finalize_slot_tracking)

lemma fold_finalize_slot_transition_hour:
  "day_transition_hour (fst (fold (finalize_slot d (hour_floor now)) st acc)) = day_transition_hour (fst acc)"
  by (induction st arbitrary: acc) (simp_all add: finalize_slot_transition_hour)

lemma fold_finalize_slot_lookup:
  assumes "distinct (map fst st)"
  shows "lookup_entry (fst (fold (finalize_slot d (hour_floor now)) st acc)) d' k' g' =
     (if d' = d then slot_effect now st k' g' (lookup_entry (fst acc) d' k' g')
      else lookup_entry (fst acc) d' k' g')"
  using assms
proof (induction st arbitrary: acc)
  case Nil
  show ?case by (simp add: slot_effect_def)
next
  case (Cons item st)
  obtain k gt where item: "item = (k, gt)" by (cases item)
  from Cons.prems have d: "distinct (map fst st)" and notin: "map_of st k = None"
    by (auto simp: item map_of_eq_None_iff)
  show ?case
    using notin
    by (simp add: Cons.IH [OF d] item finalize_slot_lookup slot_effect_def)
qed

lemma finalize_day_cases:
  "finalize_day (hour_floor now) (d, st) acc = acc \<or>
   (day_closed (fst acc) d \<and>
    finalize_day (hour_floor now) (d, st) acc = fold (finalize_slot d (hour_floor now)) st acc)"
  by (auto simp: finalize_day_def day_closed_def split: option.splits)

lemma finalize_day_open:
  "\<not> day_closed (fst acc) d \<Longrightarrow> finalize_day (hour_floor now) (d, st) acc = acc"
  by (auto simp: finalize_day_def day_closed_def split: option.splits)

lemma finalize_day_closed:
  "day_closed (fst acc) d \<Longrightarrow>
     finalize_day (hour_floor now) (d, st) acc = fold (finalize_slot d (hour_floor now)) st acc"
  by (auto simp: finalize_day_def day_closed_def split: option.splits)

lemma finalize_day_day_closed:
  "day_closed (fst (finalize_day (hour_floor now) item acc)) d' = day_closed (fst acc) d'"
proof -
  obtain d st where item: "item = (d, st)" by (cases item)
  from finalize_day_cases [of now d st acc] show ?thesis
    unfolding item by (elim disjE conjE) (simp_all add: fold_finalize_slot_day_closed)
qed

lemma finalize_day_tracking:
  "gpu_usage_tracking (fst (finalize_day (hour_floor now) item acc)) = gpu_usage_tracking (fst acc)"
proof -
  obtain d st where item: "item = (d, st)" by (cases item)
  from finalize_day_cases [of now d st acc] show ?thesis
    unfolding item by (elim disjE conjE) (simp_all add: fold_finalize_slot_tracking)
qed

lemma finalize_day_transition_hour:
  "day_transition_hour (fst (finalize_day (hour_floor now) item acc)) = day_transition_hour (fst acc)"
proof -
  obtain d st where item: "item = (d, st)" by (cases item)
  from finalize_day_cases [of now d st acc] show ?thesis
    unfolding item by (elim disjE conjE) (simp_all add: fold_finalize_slot_transition_hour)
qed

lemma fold_finalize_day_tracking:
  "gpu_usage_tracking (fst (fold (finalize_day (hour_floor now)) tr acc)) = gpu_usage_tracking (fst acc)"
  by (induction tr arbitrary: acc) (simp_all add: finalize_day_tracking)

lemma fold_finalize_day_transition_hour:
  "day_transition_hour (fst (fold (finalize_day (hour_floor now)) tr acc)) = day_transition_hour (fst acc)"
  by (induction tr arbitrary: acc) (simp_all add: finalize_day_transition_hour)

lemma fold_finalize_day_day_closed:
  "day_closed (fst (fold (finalize_day (hour_floor now)) tr acc)) d' = day_closed (fst acc) d'"
  by (induction tr arbitrary: acc) (simp_all add: finalize_day_day_closed)

lemma finalize_day_lookup:
  assumes "distinct (map fst st)"
  shows "lookup_entry (fst (finalize_day (hour_floor now) (d, st) acc)) d' k' g' =
     (if d' = d \<and> day_closed (fst acc) d
      then slot_effect now st k' g' (lookup_entry (fst acc) d' k' g')
      else lookup_entry (fst acc) d' k' g')"
proof (cases "day_closed (fst acc) d")
  case True
  then show ?thesis
    by (simp add: finalize_day_closed fold_finalize_slot_lookup [OF assms])
next
  case False
  then show ?thesis
    by (simp add: finalize_day_open)
qed

lemma fold_finalize_day_lookup:
  assumes "wf_tracking tr"
  shows "lookup_entry (fst (fold (finalize_day (hour_floor now)) tr acc)) d' k' g' =
     day_effect now (fst acc) tr d' k' g' (lookup_entry (fst acc) d' k' g')"
  using assms
proof (induction tr arbitrary: acc)
  case Nil
  show ?case by (simp add: day_effect_def)
next
  case (Cons item tr)
  obtain d st where item: "item = (d, st)" by (cases item)
  from Cons.prems have wf: "wf_tracking tr" and st: "distinct (map fst st)"
    and notin: "map_of tr d = None"
    by (auto simp: item wf_tracking_def map_of_eq_None_iff)
  have closed: "day_closed (fst (finalize_day (hour_floor now) (d, st) acc)) x = day_closed (fst acc) x" for x
    by (rule finalize_day_day_closed)
  show ?case
    using notin
    by (simp add: Cons.IH [OF wf] item finalize_day_lookup [OF st] day_effect_def closed
        cong: option.case_cong)
qed

lemma argmax_fold:
  fixes xs :: "('a \<times> nat) list"
  shows "\<exists>pre post. x # xs = pre @ fold (\<lambda>y m. if snd y > snd m then y else m) xs x # post
           \<and> (\<forall>y\<in>set pre. snd y < snd (fold (\<lambda>y m. if snd y > snd m then y else m) xs x))
           \<and> (\<forall>y\<in>set post. snd y \<le> snd (fold (\<lambda>y m. if snd y > snd m then y else m) xs x))"
proof (induction xs rule: rev_induct)
  case Nil
  show ?case by (intro exI [of _ "[]"]) simp
next
  case (snoc z xs)
  let ?r = "fold (\<lambda>y m. if snd y > snd m then y else m) xs x"
  from snoc.IH obtain pre post where eq: "x # xs = pre @ ?r # post"
    and pre: "\<forall>y\<in>set pre. snd y < snd ?r" and post: "\<forall>y\<in>set post. snd y \<le> snd ?r"
    by blast
  show ?case
  proof (cases "snd z > snd ?r")
    case True
    have "x # xs @ [z] = (pre @ ?r # post) @ z # []"
      using eq by simp
    moreover have "snd y < snd z" if "y \<in> set (pre @ ?r # post)" for y
    proof -
      from that consider "y \<in> set pre" | "y = ?r" | "y \<in> set post"
        by auto
      then show ?thesis
      proof cases
        case 1
        with pre have "snd y < snd ?r" by blast
        then show ?thesis using True by (rule less_trans)
      next
        case 2
        with True show ?thesis by simp
      next
        case 3
        with post have "snd y \<le> snd ?r" by blast
        then show ?thesis using True by (rule le_less_trans)
      qed
    qed
    ultimately show ?thesis
      using True by (intro exI [of _ "pre @ ?r # post"] exI [of _ "[]"]) simp
  next
    case False
    have "x # xs @ [z] = pre @ ?r # (post @ [z])"
      using eq by simp
    moreover have "\<forall>y\<in>set (post @ [z]). snd y \<le> snd ?r"
      using post False by auto
    ultimately show ?thesis
      using False pre by (intro exI [of _ pre] exI [of _ "post @ [z]"]) simp
  qed
qed

lemma most_frequent_first_max:
  assumes "most_frequent uc = Some n"
  shows "\<exists>pre c post. uc = pre @ (n, c) # post
           \<and> (\<forall>y\<in>set pre. snd y < c) \<and> (\<forall>y\<in>set post. snd y \<le> c)"
proof (cases uc)
  case Nil
  with assms show ?thesis by (simp add: most_frequent_def)
next
  case (Cons x xs)
  let ?r = "fold (\<lambda>y m. if snd y > snd m then y else m) xs x"
  from assms Cons have n: "n = fst ?r"
    by (simp add: most_frequent_def)
  from argmax_fold [of x xs] obtain pre post where "x # xs = pre @ ?r # post"
    and "\<forall>y\<in>set pre. snd y < snd ?r" and "\<forall>y\<in>set post. snd y \<le> snd ?r"
    by blast
  then show ?thesis
    unfolding Cons n by (intro exI [of _ pre] exI [of _ "snd ?r"] exI [of _ post]) simp
qed

lemma most_frequent_None: "most_frequent uc = None \<longleftrightarrow> uc = []"
  by (cases uc) (simp_all add: most_frequent_def)

lemma lookup_entry_tracking_update [simp]:
  "lookup_entry (s\<lparr>gpu_usage_tracking := t\<rparr>) d k g = lookup_entry s d k g"
  by (simp add: lookup_entry_def)

lemma finalize_past_gpu_slots_lookup:
  assumes "wf_tracking (gpu_usage_tracking s)"
  shows "lookup_entry (snd (finalize_past_gpu_slots now s)) d k g
       = day_effect now s (gpu_usage_tracking s) d k g (lookup_entry s d k g)"
proof -
  obtain s1 n where f: "fold (finalize_day (hour_floor now)) (gpu_usage_tracking s) (s, 0) = (s1, n)"
    by (cases "fold (finalize_day (hour_floor now)) (gpu_usage_tracking s) (s, 0)")
  from fold_finalize_day_lookup [OF assms, of now "(s, 0)" d k g]
  have "lookup_entry s1 d k g = day_effect now s (gpu_usage_tracking s) d k g (lookup_entry s d k g)"
    by (simp add: f)
  then show ?thesis
    by (simp add: finalize_past_gpu_slots_def Let_def f)
qed

section \<open>Polls: the loop over the usage map\<close>

lemma fold_count_user_empty:
  "list_all (\<lambda>n. n = []) us \<Longrightarrow> fold count_user us acc = acc"
  by (induction us arbitrary: acc) (auto simp: count_user_def)

lemma map_of_default_key:
  "map_of (default_key k v xs) k' =
     (if k' = k then Some (case map_of xs k of None \<Rightarrow> v | Some w \<Rightarrow> w) else map_of xs k')"
  by (auto simp: default_key_def update_conv' split: option.splits)

lemma get_or_default_key: "get_or v (default_key k v xs) k = get_or v xs k"
  by (simp add: get_or_def map_of_default_key split: option.splits)

lemma record_usage_other:
  assumes "gj \<noteq> gi" and "0 \<le> gi"
  shows "map_of (fst (record_usage (gj, us) acc)) (nat gi) = map_of (fst acc) (nat gi)"
proof (cases "gj < 0 \<or> gj \<ge> NUM_GPUS")
  case True
  then show ?thesis by (cases acc) (simp add: record_usage_def)
next
  case False
  with assms have "nat gj \<noteq> nat gi" by (simp add: eq_nat_nat_iff)
  with False show ?thesis
    by (cases acc)
       (auto simp: record_usage_def Let_def update_conv' map_of_default_key split: prod.splits)
qed

lemma record_usage_same_empty:
  assumes "0 \<le> gi" and "gi < 8" and "list_all (\<lambda>n. n = []) us"
      and "map_of (fst acc) (nat gi) = None \<or> map_of (fst acc) (nat gi) = Some []"
  shows "map_of (fst (record_usage (gi, us) acc)) (nat gi) = Some []"
  using assms
  by (cases acc)
     (auto simp: record_usage_def Let_def update_conv' map_of_default_key get_or_def
        fold_count_user_empty NUM_GPUS_def split: prod.splits option.splits)

lemma fold_record_usage_empty:
  assumes "0 \<le> gi" and "gi < 8"
      and "\<forall>(gj, us)\<in>set usage. gj = gi \<longrightarrow> list_all (\<lambda>n. n = []) us"
      and "map_of (fst acc) (nat gi) = None \<or> map_of (fst acc) (nat gi) = Some []"
  shows "(map_of (fst (fold record_usage usage acc)) (nat gi) = None
            \<or> map_of (fst (fold record_usage usage acc)) (nat gi) = Some [])
       \<and> (gi \<in> fst ` set usage \<or> map_of (fst acc) (nat gi) = Some []
            \<longrightarrow> map_of (fst (fold record_usage usage acc)) (nat gi) = Some [])"
  using assms(3,4)
proof (induction usage arbitrary: acc)
  case Nil
  then show ?case by simp
next
  case (Cons item usage)
  obtain gj us where item: "item = (gj, us)" by (cases item)
  let ?acc1 = "record_usage (gj, us) acc"
  from Cons.prems(1) have rest: "\<forall>(gj, us)\<in>set usage. gj = gi \<longrightarrow> list_all (\<lambda>n. n = []) us"
    by simp
  show ?case
  proof (cases "gj = gi")
    case True
    with Cons.prems(1) have "list_all (\<lambda>n. n = []) us"
      by (simp add: item)
    from record_usage_same_empty [OF assms(1,2) this Cons.prems(2)] True
    have one: "map_of (fst ?acc1) (nat gi) = Some []"
      by simp
    with Cons.IH [OF rest, of ?acc1] show ?thesis
      by (simp add: item)
  next
    case False
    from record_usage_other [OF False assms(1), of us acc]
    have same: "map_of (fst ?acc1) (nat gi) = map_of (fst acc) (nat gi)" .
    with Cons.prems(2) have "map_of (fst ?acc1) (nat gi) = None \<or> map_of (fst ?acc1) (nat gi) = Some []"
      by simp
    from Cons.IH [OF rest this] same False show ?thesis
      by (auto simp: item)
  qed
qed

lemma finalize_entry_eq:
  assumes "wf_tracking (gpu_usage_tracking s)"
  shows "lookup_entry (snd (finalize_past_gpu_slots now s)) d k g
           = (case lookup_entry s d k g of
                None \<Rightarrow> None
              | Some e \<Rightarrow>
                  (case tracked_counts s d k g of
                     None \<Rightarrow> Some e
                   | Some uc \<Rightarrow>
                       if day_closed s d \<and> slot_done now k \<and> actual_user e = None
                       then Some (e\<lparr>actual_user := Some (most_frequent uc)\<rparr>) else Some e))"
  unfolding finalize_past_gpu_slots_lookup [OF assms]
  by (auto simp: day_effect_def slot_effect_def tracked_counts_def fin_entry_def
      split: option.splits)

lemma process_gpu_status_tracked:
  assumes "expected_token \<noteq> []" and "auth_header = ''Bearer '' @ expected_token"
  shows "tracked_counts (snd (process_gpu_status auth_header expected_token usage now s))
           (poll_week s now) (poll_slot now) g
       = map_of (fst (fold record_usage usage
           (get_or [] (default_key (poll_slot now) []
              (get_or [] (default_key (poll_week s now) [] (gpu_usage_tracking s)) (poll_week s now)))
              (poll_slot now), 0))) g"
  using assms
  by (simp add: process_gpu_status_def Let_def tracked_counts_def poll_week_def poll_slot_def
      update_conv' split: prod.splits)

lemma poll_start_counts:
  "map_of (get_or [] (default_key sk []
              (get_or [] (default_key wk [] (gpu_usage_tracking s)) wk)) sk) g
     = tracked_counts s wk sk g"
  by (auto simp: get_or_def map_of_default_key tracked_counts_def split: option.splits)

section \<open>Price and winner: the invariant of every entry\<close>

lemma list_all_map_entry:
  assumes "list_all P xs" and "\<And>v. P (k, v) \<Longrightarrow> P (k, f v)"
  shows "list_all P (AList.map_entry k f xs)"
  using assms by (induction xs) auto

lemma list_all_alist_update:
  assumes "list_all P xs" and "P (k, v)"
  shows "list_all P (AList.update k v xs)"
  using assms by (induction xs) auto

lemma list_all_alist_delete:
  assumes "list_all P xs"
  shows "list_all P (AList.delete k xs)"
  using assms by (induction xs) auto

lemma list_all_list_update:
  assumes "list_all P xs" and "i < length xs \<Longrightarrow> P x"
  shows "list_all P (xs[i := x])"
  using assms by (induction xs arbitrary: i) (auto split: nat.splits)

lemma price_winner_inv_days:
  "days s' = days s \<Longrightarrow> price_winner_inv s' = price_winner_inv s"
  by (simp add: price_winner_inv_def)

lemma day_ok_status [simp]:
  "day_ok (k, d\<lparr>status := st\<rparr>) = day_ok (k, d)"
  "day_ok (k, d\<lparr>status := st, finalized_at := fa\<rparr>) = day_ok (k, d)"
  by (simp_all add: day_ok_def)

lemma day_ok_new_day: "day_ok (k, new_day k' st)"
  by (simp add: day_ok_def new_day_def list_all_iff entry_ok_def)

lemma price_winner_inv_map_gpu_entry:
  assumes "price_winner_inv s" and "\<And>e. entry_ok e \<Longrightarrow> entry_ok (f e)"
  shows "price_winner_inv (map_gpu_entry d k g f s)"
proof -
  have slot: "list_all entry_ok ((gpu_prices sl)[g := f (gpu_prices sl ! g)])"
    if "list_all entry_ok (gpu_prices sl)" for sl
    using that assms(2) by (intro list_all_list_update) (auto simp: list_all_length)
  have day: "day_ok (d, dd\<lparr>slots := AList.map_entry k
           (\<lambda>sl. sl\<lparr>gpu_prices := (gpu_prices sl)[g := f (gpu_prices sl ! g)]\<rparr>) (slots dd)\<rparr>)"
    if "day_ok (d, dd)" for dd
    using that unfolding day_ok_def
    by (auto intro!: list_all_map_entry simp: slot)
  from assms(1) show ?thesis
    unfolding price_winner_inv_def map_gpu_entry_def
    by (auto intro!: list_all_map_entry day)
qed

lemma price_winner_inv_lookup:
  assumes "price_winner_inv s" and "lookup_entry s d k g = Some e"
  shows "entry_ok e"
proof -
  from assms(2) obtain dd sl where dd: "map_of (days s) d = Some dd"
    and sl: "map_of (slots dd) k = Some sl" and g: "g < length (gpu_prices sl)"
    and e: "e = gpu_prices sl ! g"
    by (auto simp: lookup_entry_def split: option.splits if_splits)
  from dd have "(d, dd) \<in> set (days s)" by (rule map_of_SomeD)
  with assms(1) have "day_ok (d, dd)"
    by (simp add: price_winner_inv_def list_all_iff)
  moreover from sl have "(k, sl) \<in> set (slots dd)" by (rule map_of_SomeD)
  ultimately have "list_all entry_ok (gpu_prices sl)"
    by (auto simp: day_ok_def list_all_iff)
  with g e show ?thesis
    by (simp add: list_all_length)
qed

lemma price_winner_inv_apply_bid:
  assumes "price_winner_inv s" and "1 \<le> p"
  shows "price_winner_inv (apply_bid u wk sk g p ts s)"
proof -
  have "price_winner_inv (map_gpu_entry wk sk (nat g) (bid_entry u p ts) s)"
    using assms by (intro price_winner_inv_map_gpu_entry) (auto simp: entry_ok_def bid_entry_def)
  then show ?thesis
    by (simp add: price_winner_inv_days [OF days_apply_bid])
qed

lemma place_bid_rejected_unchanged:
  "isl (fst (place_bid u p now s)) \<Longrightarrow> snd (place_bid u p now s) = s"
  by (cases p) (auto simp: place_bid_def Let_def split: option.splits if_splits)

lemma price_winner_inv_place_bid:
  assumes "price_winner_inv s"
  shows "price_winner_inv (snd (place_bid u p now s))"
proof (cases "fst (place_bid u p now s)")
  case (Inl e)
  then have "snd (place_bid u p now s) = s"
    by (intro place_bid_rejected_unchanged) simp
  with assms show ?thesis by simp
next
  case (Inr r)
  obtain wk sk g where p: "p = (wk, sk, g)" by (cases p)
  from Inr have "place_bid u (wk, sk, g) now s = (Inr r, snd (place_bid u p now s))"
    by (simp add: p prod_eq_iff)
  then obtain d sl where d: "map_of (days s) wk = Some d" "map_of (slots d) sk = Some sl"
      "nat g < length (gpu_prices sl)"
    and s': "snd (place_bid u p now s)
        = (apply_bid u wk sk g (price (gpu_prices sl ! nat g) + 1) now s)
            \<lparr>bid_log := truncate_log (bid_log (apply_bid u wk sk g
                 (price (gpu_prices sl ! nat g) + 1) now s))\<rparr>"
    by (rule place_bid_accepted_state)
  from d have "lookup_entry s wk sk (nat g) = Some (gpu_prices sl ! nat g)"
    by (simp add: lookup_entry_def)
  with assms have "entry_ok (gpu_prices sl ! nat g)"
    by (rule price_winner_inv_lookup)
  then have "1 \<le> price (gpu_prices sl ! nat g) + 1"
    by (auto simp: entry_ok_def)
  with assms have "price_winner_inv (apply_bid u wk sk g (price (gpu_prices sl ! nat g) + 1) now s)"
    by (rule price_winner_inv_apply_bid)
  then show ?thesis
    unfolding s' by (simp add: price_winner_inv_def)
qed

lemma price_winner_inv_execute_bids:
  assumes "price_winner_inv s" and "list_all (\<lambda>v. 1 \<le> v_new_price v) vs"
  shows "price_winner_inv (execute_bids u ts vs s)"
  using assms unfolding execute_bids_def
  by (induction vs arbitrary: s) (simp_all add: price_winner_inv_apply_bid)

lemma price_winner_inv_place_bulk_bids:
  assumes "price_winner_inv s"
  shows "price_winner_inv (snd (place_bulk_bids u bs now s))"
proof (cases "get_session_user s u")
  case None
  with assms show ?thesis
    by (simp add: place_bulk_bids_def)
next
  case (Some usr)
  show ?thesis
  proof (cases "bulk_admissible u bs s")
    case False
    from place_bulk_bids_rejected [OF Some False, of now] assms show ?thesis
      by auto
  next
    case True
    have "1 \<le> v_new_price (validation_of u s b)" if "b \<in> set bs" for b
    proof -
      obtain wk sk g where b: "b = (wk, sk, g)" by (cases b)
      from True that obtain e where e: "lookup_entry s wk sk (nat g) = Some e"
        by (auto simp: bulk_admissible_def list_all_iff bid_valid_def bid_target_ok_def b)
      with assms have "entry_ok e"
        by (rule price_winner_inv_lookup)
      with e show ?thesis
        by (auto simp: validation_of_def entry_at_def b entry_ok_def)
    qed
    then have "list_all (\<lambda>v. 1 \<le> v_new_price v) (map (validation_of u s) (normalised_bids bs))"
      by (simp add: list_all_iff)
    with assms have "price_winner_inv (execute_bids u now (map (validation_of u s) (normalised_bids bs)) s)"
      by (rule price_winner_inv_execute_bids)
    then show ?thesis
      by (simp add: place_bulk_bids_accepted [OF Some True] price_winner_inv_def)
  qed
qed

lemma undo_bid_cases:
  "snd (undo_bid u (wk, sk, g) pw pp s) = s
   \<or> snd (undo_bid u (wk, sk, g) pw pp s) = map_gpu_entry wk sk (nat g) (undo_entry u pw pp) s"
  by (auto simp: undo_bid_def Let_def split: option.splits)

lemma price_winner_inv_undo_bid:
  assumes "price_winner_inv s" and "(pw = None \<and> pp = 0) \<or> (pw \<noteq> None \<and> 1 \<le> pp)"
  shows "price_winner_inv (snd (undo_bid u p pw pp s))"
proof -
  obtain wk sk g where p: "p = (wk, sk, g)" by (cases p)
  have "price_winner_inv (map_gpu_entry wk sk (nat g) (undo_entry u pw pp) s)"
    using assms by (intro price_winner_inv_map_gpu_entry) (auto simp: entry_ok_def undo_entry_def)
  with assms(1) undo_bid_cases [of u wk sk g pw pp s] show ?thesis
    unfolding p by auto
qed

lemma entry_ok_clear_entry: "entry_ok (clear_entry e)"
  by (simp add: entry_ok_def clear_entry_def)

lemma release_slot_cases:
  "snd (release_slot u (wk, sk, g) now s) = s
   \<or> (\<exists>a. snd (release_slot u (wk, sk, g) now s)
         = map_gpu_entry wk sk (nat g) clear_entry (add_balance u a s))"
  by (auto simp: release_slot_def Let_def split: option.splits)

lemma price_winner_inv_add_balance [simp]:
  "price_winner_inv (add_balance u a s) = price_winner_inv s"
  by (simp add: price_winner_inv_def)

lemma price_winner_inv_release_slot:
  assumes "price_winner_inv s"
  shows "price_winner_inv (snd (release_slot u p now s))"
proof -
  obtain wk sk g where p: "p = (wk, sk, g)" by (cases p)
  have "price_winner_inv (map_gpu_entry wk sk (nat g) clear_entry (add_balance u a s))" for a
    using assms by (intro price_winner_inv_map_gpu_entry) (simp_all add: entry_ok_clear_entry)
  with assms release_slot_cases [of u wk sk g now s] show ?thesis
    unfolding p by auto
qed

lemma price_winner_inv_release_one:
  assumes "price_winner_inv (fst acc)"
  shows "price_winner_inv (fst (release_one u nh b acc))"
proof -
  obtain wk sk g s n where eq: "b = (wk, sk, g)" "acc = (s, n)"
    by (cases b; cases acc) auto
  have "price_winner_inv (map_gpu_entry wk sk (nat g) clear_entry s)"
    using assms by (intro price_winner_inv_map_gpu_entry) (simp_all add: eq entry_ok_clear_entry)
  with assms show ?thesis
    by (simp add: eq release_one_eq)
qed

lemma price_winner_inv_fold_release_one:
  assumes "price_winner_inv (fst acc)"
  shows "price_winner_inv (fst (fold (release_one u nh) bs acc))"
  using assms by (induction bs arbitrary: acc) (simp_all add: price_winner_inv_release_one)

lemma price_winner_inv_release_slots_bulk:
  assumes "price_winner_inv s" and "release_slots_bulk u bs now s = Some (r, s')"
  shows "price_winner_inv s'"
proof -
  from assms(2) have "s' = s \<or> (\<exists>vs a s1 n.
      fold (release_one u (hour_floor now + 3600)) vs (s, 0) = (s1, n) \<and> s' = add_balance u a s1)"
    by (auto simp: release_slots_bulk_def Let_def split: option.splits if_splits sum.splits prod.splits)
  then show ?thesis
  proof
    assume "s' = s"
    with assms(1) show ?thesis by simp
  next
    assume "\<exists>vs a s1 n.
      fold (release_one u (hour_floor now + 3600)) vs (s, 0) = (s1, n) \<and> s' = add_balance u a s1"
    then obtain vs a s1 n where f: "fold (release_one u (hour_floor now + 3600)) vs (s, 0) = (s1, n)"
      and s': "s' = add_balance u a s1"
      by blast
    from price_winner_inv_fold_release_one [of "(s, 0)" u "hour_floor now + 3600" vs] assms(1) f
    have "price_winner_inv s1" by simp
    then show ?thesis
      by (simp add: s')
  qed
qed

lemma price_winner_inv_ensure_day_exists:
  assumes "price_winner_inv s"
  shows "price_winner_inv (ensure_day_exists t st s)"
  using assms
  by (auto simp: ensure_day_exists_def Let_def price_winner_inv_def day_ok_new_day
      intro!: list_all_map_entry list_all_alist_update split: option.splits)

lemma price_winner_inv_users_update [simp]:
  "price_winner_inv (s\<lparr>users := us\<rparr>) = price_winner_inv s"
  by (simp add: price_winner_inv_def)

lemma price_winner_inv_days_map_entry:
  assumes "price_winner_inv s" and "\<And>d. day_ok (k, d) \<Longrightarrow> day_ok (k, f d)"
  shows "price_winner_inv (s\<lparr>days := AList.map_entry k f (days s)\<rparr>)"
  using assms by (auto simp: price_winner_inv_def intro!: list_all_map_entry)

lemma price_winner_inv_days_delete:
  assumes "price_winner_inv s"
  shows "price_winner_inv (s\<lparr>days := AList.delete k (days s)\<rparr>)"
  using assms by (auto simp: price_winner_inv_def intro!: list_all_alist_delete)

lemma price_winner_inv_advance_day_cycle:
  assumes "price_winner_inv s"
  shows "price_winner_inv (snd (advance_day_cycle now s))"
proof (cases "find_days_by_status Open s")
  case Nil
  with assms show ?thesis
    by (simp add: advance_day_cycle_def Let_def)
next
  case (Cons x rest)
  obtain o1 od where x: "x = (o1, od)" by (cases x)
  define th where "th = day_transition_hour s"
  define cur where "cur = (case find_day_by_status Executing s of
              Some (k, d) \<Rightarrow> (k, s)
            | None \<Rightarrow>
                (let current_key = format_day (day_start_for th now)
                 in (format_day (parse_day th current_key),
                     ensure_day_exists (parse_day th current_key) Executing s)))"
  obtain ck s1 where cur: "cur = (ck, s1)" by (cases cur)
  have s1: "price_winner_inv s1"
    using assms cur unfolding cur_def
    by (auto simp: Let_def price_winner_inv_ensure_day_exists split: option.splits)
  let ?s3 = "s1\<lparr>users := add_daily_budget o1 (deduct_payouts (compute_payouts od) (users s1))\<rparr>"
  let ?s4 = "?s3\<lparr>days := AList.map_entry ck
                  (\<lambda>d. d\<lparr>status := Final,
                          finalized_at := (if finalized_at d = None then Some now
                                           else finalized_at d)\<rparr>) (days ?s3)\<rparr>"
  let ?s5 = "?s4\<lparr>days := AList.map_entry o1
                  (\<lambda>d. d\<lparr>status := Executing, finalized_at := Some now\<rparr>) (days ?s4)\<rparr>"
  let ?s6 = "?s5\<lparr>days := AList.delete (format_day (parse_day th o1 + 6 * 86400)) (days ?s5)\<rparr>"
  have "price_winner_inv ?s3"
    using s1 by simp
  then have "price_winner_inv ?s4"
    by (rule price_winner_inv_days_map_entry) simp
  then have "price_winner_inv ?s5"
    by (rule price_winner_inv_days_map_entry) simp
  then have "price_winner_inv ?s6"
    by (rule price_winner_inv_days_delete)
  then have "price_winner_inv (ensure_day_exists (parse_day th o1 + 6 * 86400) Open ?s6)"
    by (rule price_winner_inv_ensure_day_exists)
  moreover have "snd (advance_day_cycle now s)
      = ensure_day_exists (parse_day th o1 + 6 * 86400) Open ?s6"
    using Cons cur unfolding cur_def th_def
    by (simp add: advance_day_cycle_def Let_def x)
  ultimately show ?thesis
    by simp
qed

lemma price_winner_inv_auto_advance_loop:
  assumes "price_winner_inv s"
  shows "price_winner_inv (snd (auto_advance_loop n now r s))"
  using assms
proof (induction n arbitrary: r s)
  case 0
  then show ?case by simp
next
  case (Suc n)
  show ?case
  proof (cases "find_day_by_status Executing s")
    case None
    with Suc.prems show ?thesis by simp
  next
    case (Some x)
    obtain k d where x: "x = (k, d)" by (cases x)
    show ?thesis
    proof (cases "now < day_close_time (parse_day (day_transition_hour s) k)")
      case True
      with Some Suc.prems show ?thesis by (simp add: x)
    next
      case False
      obtain r1 s1 where adv: "advance_day_cycle now s = (r1, s1)"
        by (cases "advance_day_cycle now s")
      from price_winner_inv_advance_day_cycle [OF Suc.prems, of now] adv
      have "price_winner_inv s1" by simp
      then have "price_winner_inv (snd (auto_advance_loop n now (Some r1) s1))"
        by (rule Suc.IH)
      with Some False adv show ?thesis
        by (simp add: x)
    qed
  qed
qed

lemma price_winner_inv_ensure_open_day:
  assumes "price_winner_inv s"
  shows "price_winner_inv (ensure_open_day k s)"
  using assms
  by (auto simp: ensure_open_day_def price_winner_inv_ensure_day_exists
      intro!: price_winner_inv_days_map_entry split: option.splits)

lemma price_winner_inv_fold_ensure_open_day:
  assumes "price_winner_inv s"
  shows "price_winner_inv (fold ensure_open_day ks s)"
  using assms by (induction ks arbitrary: s) (simp_all add: price_winner_inv_ensure_open_day)

lemma price_winner_inv_finalize_gpu:
  assumes "price_winner_inv (fst acc)"
  shows "price_winner_inv (fst (finalize_gpu d k item acc))"
proof -
  obtain g uc s n where eq: "item = (g, uc)" "acc = (s, n)"
    by (cases item; cases acc) auto
  have "price_winner_inv (map_gpu_entry d k g (\<lambda>e. e\<lparr>actual_user := Some (most_frequent uc)\<rparr>) s)"
    using assms by (intro price_winner_inv_map_gpu_entry) (simp_all add: eq entry_ok_def)
  with assms finalize_gpu_cases [of d k g uc s n] show ?thesis
    unfolding eq by auto
qed

lemma price_winner_inv_fold_finalize_gpu:
  assumes "price_winner_inv (fst acc)"
  shows "price_winner_inv (fst (fold (finalize_gpu d k) gt acc))"
  using assms by (induction gt arbitrary: acc) (simp_all add: price_winner_inv_finalize_gpu)

lemma price_winner_inv_finalize_slot:
  assumes "price_winner_inv (fst acc)"
  shows "price_winner_inv (fst (finalize_slot d (hour_floor now) item acc))"
proof -
  obtain k gt where item: "item = (k, gt)" by (cases item)
  from finalize_slot_cases [of d now k gt acc] assms show ?thesis
    unfolding item by (auto simp: price_winner_inv_fold_finalize_gpu)
qed

lemma price_winner_inv_fold_finalize_slot:
  assumes "price_winner_inv (fst acc)"
  shows "price_winner_inv (fst (fold (finalize_slot d (hour_floor now)) st acc))"
  using assms by (induction st arbitrary: acc) (simp_all add: price_winner_inv_finalize_slot)

lemma price_winner_inv_finalize_day:
  assumes "price_winner_inv (fst acc)"
  shows "price_winner_inv (fst (finalize_day (hour_floor now) item acc))"
proof -
  obtain d st where item: "item = (d, st)" by (cases item)
  from finalize_day_cases [of now d st acc] assms show ?thesis
    unfolding item by (auto simp: price_winner_inv_fold_finalize_slot)
qed

lemma price_winner_inv_fold_finalize_day:
  assumes "price_winner_inv (fst acc)"
  shows "price_winner_inv (fst (fold (finalize_day (hour_floor now)) tr acc))"
  using assms by (induction tr arbitrary: acc) (simp_all add: price_winner_inv_finalize_day)

lemma price_winner_inv_finalize_past_gpu_slots:
  assumes "price_winner_inv s"
  shows "price_winner_inv (snd (finalize_past_gpu_slots now s))"
proof -
  obtain s1 n where f: "fold (finalize_day (hour_floor now)) (gpu_usage_tracking s) (s, 0) = (s1, n)"
    by (cases "fold (finalize_day (hour_floor now)) (gpu_usage_tracking s) (s, 0)")
  from price_winner_inv_fold_finalize_day [of "(s, 0)" now "gpu_usage_tracking s"] assms f
  have "price_winner_inv s1" by simp
  then show ?thesis
    by (simp add: finalize_past_gpu_slots_def Let_def f price_winner_inv_def)
qed

lemma price_winner_inv_update_tail:
  assumes "price_winner_inv s1"
  shows "price_winner_inv (snd (finalize_past_gpu_slots now_fin
           (snd (maybe_auto_advance now (fold ensure_open_day ks s1)))))"
proof -
  from assms have "price_winner_inv (fold ensure_open_day ks s1)"
    by (rule price_winner_inv_fold_ensure_open_day)
  then have "price_winner_inv (snd (maybe_auto_advance now (fold ensure_open_day ks s1)))"
    unfolding maybe_auto_advance_def by (rule price_winner_inv_auto_advance_loop)
  then show ?thesis
    by (rule price_winner_inv_finalize_past_gpu_slots)
qed

lemma price_winner_inv_update_system_state:
  assumes "price_winner_inv s"
  shows "price_winner_inv (update_system_state now now_fin s)"
proof (cases "find_day_by_status Executing s")
  case None
  have "price_winner_inv (ensure_day_exists (day_start_for (day_transition_hour s) now) Executing s)"
    using assms by (rule price_winner_inv_ensure_day_exists)
  then show ?thesis
    unfolding update_system_state_def Let_def None option.case prod.case
    by (rule price_winner_inv_update_tail)
next
  case (Some x)
  obtain k d where x: "x = (k, d)" by (cases x)
  from assms show ?thesis
    unfolding update_system_state_def Let_def Some x option.case prod.case
    by (rule price_winner_inv_update_tail)
qed

lemma price_winner_inv_step:
  assumes "price_winner_inv s" and "undo_consistent a" and "step a s = Some s'"
  shows "price_winner_inv s'"
proof (cases a)
  case (Bid u p now)
  with assms(3) have "s' = snd (place_bid u p now s)"
    by (simp only: step.simps option.inject)
  with assms(1) show ?thesis
    by (simp only: price_winner_inv_place_bid)
next
  case (Bulk_bid u bs now)
  with assms(3) have "s' = snd (place_bulk_bids u bs now s)"
    by (simp only: step.simps option.inject)
  with assms(1) show ?thesis
    by (simp only: price_winner_inv_place_bulk_bids)
next
  case (Undo u p pw pp)
  with assms(2) have c: "(pw = None \<and> pp = 0) \<or> (pw \<noteq> None \<and> 1 \<le> pp)"
    by (simp only: undo_consistent_def operation.case)
  from Undo assms(3) have "s' = snd (undo_bid u p pw pp s)"
    by (simp only: step.simps option.inject)
  with price_winner_inv_undo_bid [OF assms(1) c, of u p] show ?thesis
    by (simp only:)
next
  case (Release u p now)
  with assms(3) have "s' = snd (release_slot u p now s)"
    by (simp only: step.simps option.inject)
  with assms(1) show ?thesis
    by (simp only: price_winner_inv_release_slot)
next
  case (Release_bulk u bs now)
  with assms(3) have "map_option snd (release_slots_bulk u bs now s) = Some s'"
    by (simp only: step.simps)
  then obtain r where "release_slots_bulk u bs now s = Some (r, s')"
    by (cases "release_slots_bulk u bs now s") auto
  with assms(1) show ?thesis by (rule price_winner_inv_release_slots_bulk)
next
  case (Advance now)
  with assms(3) have "s' = snd (advance_day_cycle now s)"
    by (simp only: step.simps option.inject)
  with assms(1) show ?thesis
    by (simp only: price_winner_inv_advance_day_cycle)
next
  case (Update_state now now_fin)
  with assms(3) have "s' = update_system_state now now_fin s"
    by (simp only: step.simps option.inject)
  with assms(1) show ?thesis
    by (simp only: price_winner_inv_update_system_state)
qed

section \<open>Single bid\<close>

text \<open>
  C1.  For a caller with a session and a balance that is not negative, a single bid is
  accepted exactly when the gpu index is in \<open>[0, 8)\<close>, the day exists and is open, the slot
  and its entry exist, the entry is not reserved, and
  \<open>committed - (price if the caller wins the entry already) + (price + 1)\<close> is at most
  the floor of the balance.  Consequently, after any non-empty sequence of accepted bids
  of the user, the committed credits are at most the floor of the balance.
\<close>

theorem bid_keeps_committed_within_balance:
  assumes "get_session_user s u \<noteq> None" and "0 \<le> user_balance s u"
  shows "(\<not> isl (fst (place_bid u p now s)) \<longleftrightarrow> bid_admissible u p s)
       \<and> (\<forall>bs s'. bs \<noteq> [] \<and> place_bids u bs s = Some s'
             \<longrightarrow> committed_for_user s' u \<le> \<lfloor>user_balance s' u\<rfloor>)"
  using place_bid_accepted_iff [OF assms] place_bids_committed [OF _ _ assms(2)]
  by blast

theorem bid_keeps_committed_within_balance_witness:
  "get_session_user release_state ''alice'' \<noteq> None
   \<and> 0 \<le> user_balance release_state ''alice''
   \<and> bid_admissible ''alice'' (11, (11, 9), 3) release_state
   \<and> \<not> isl (fst (place_bid ''alice'' (11, (11, 9), 3) 7 release_state))
   \<and> place_bids ''alice'' alice_bids release_state \<noteq> None
   \<and> committed_for_user (the (place_bids ''alice'' alice_bids release_state)) ''alice''
       \<le> \<lfloor>user_balance (the (place_bids ''alice'' alice_bids release_state)) ''alice''\<rfloor>"
proof -
  have session: "get_session_user release_state ''alice'' \<noteq> None"
    by code_simp
  have bal: "0 \<le> user_balance release_state ''alice''"
    by code_simp
  have adm: "bid_admissible ''alice'' (11, (11, 9), 3) release_state"
    by code_simp
  have run: "place_bids ''alice'' alice_bids release_state \<noteq> None"
    by code_simp
  then obtain s' where s': "place_bids ''alice'' alice_bids release_state = Some s'"
    by blast
  have ne: "alice_bids \<noteq> []"
    by (simp add: alice_bids_def)
  note main = bid_keeps_committed_within_balance [OF session bal, of "(11, (11, 9), 3)" 7]
  from main adm have first: "\<not> isl (fst (place_bid ''alice'' (11, (11, 9), 3) 7 release_state))"
    by (simp only: simp_thms)
  from main have "\<forall>bs s'. bs \<noteq> [] \<and> place_bids ''alice'' bs release_state = Some s'
             \<longrightarrow> committed_for_user s' ''alice'' \<le> \<lfloor>user_balance s' ''alice''\<rfloor>"
    by (rule conjunct2)
  then have "alice_bids \<noteq> [] \<and> place_bids ''alice'' alice_bids release_state = Some s'
             \<longrightarrow> committed_for_user s' ''alice'' \<le> \<lfloor>user_balance s' ''alice''\<rfloor>"
    by (elim allE)
  with ne s' have "committed_for_user s' ''alice'' \<le> \<lfloor>user_balance s' ''alice''\<rfloor>"
    by (simp only: simp_thms)
  with s' have last: "committed_for_user (the (place_bids ''alice'' alice_bids release_state)) ''alice''
       \<le> \<lfloor>user_balance (the (place_bids ''alice'' alice_bids release_state)) ''alice''\<rfloor>"
    by (simp only: option.sel)
  from session bal adm first run last show ?thesis
    by (intro conjI)
qed

section \<open>One day advancement\<close>

text \<open>
  C3.  In a state with unique day keys and a transition hour in \<open>[0, 24)\<close>: without an
  open day \<open>advance_day_cycle\<close> returns the error and the state as it was.  With the
  earliest open day \<open>o1\<close> and the executing day \<open>e\<close>, every user (of a non-empty name)
  who wins entries of \<open>o1\<close> is charged \<open>max 0 (balance - sum of their prices)\<close>, then
  every enabled user is credited the daily budget; \<open>e\<close> becomes final, \<open>o1\<close> executing,
  a fresh open day stands at \<open>o1 + 6\<close> (whatever was there before), and every other day
  is as it was.
\<close>

theorem advance_day_cycle_correct:
  assumes "distinct (map fst (days s))"
      and "0 \<le> day_transition_hour s" and "day_transition_hour s < 24"
  shows "(find_days_by_status Open s = [] \<longrightarrow> advance_day_cycle now s = (Inl No_open_days, s))
       \<and> (\<forall>o1 od rest e ed.
             find_days_by_status Open s = (o1, od) # rest
             \<and> find_day_by_status Executing s = Some (e, ed) \<longrightarrow>
               (\<forall>(k, d)\<in>set (days s). status d = Open \<longrightarrow> o1 \<le> k)
             \<and> fst (advance_day_cycle now s) = Inr (day_start od, o1 + 6)
             \<and> (\<forall>name usr. name \<noteq> [] \<and> map_of (users s) name = Some usr \<longrightarrow>
                   map_of (users (snd (advance_day_cycle now s))) name
                     = Some (credited o1
                         (if wins_in name (day_entries od)
                          then charged (payout_of name (day_entries od)) usr else usr)))
             \<and> (\<forall>k. map_of (days (snd (advance_day_cycle now s))) k =
                   (if k = o1 + 6 then Some (new_day (o1 + 6) Open)
                    else if k = o1 then Some (od\<lparr>status := Executing, finalized_at := Some now\<rparr>)
                    else if k = e
                    then Some (ed\<lparr>status := Final,
                           finalized_at := (if finalized_at ed = None then Some now
                                            else finalized_at ed)\<rparr>)
                    else map_of (days s) k)))"
proof -
  have none: "advance_day_cycle now s = (Inl No_open_days, s)" if "find_days_by_status Open s = []"
    using that by (simp add: advance_day_cycle_def Let_def)
  have some: "(\<forall>(k, d)\<in>set (days s). status d = Open \<longrightarrow> o1 \<le> k)
             \<and> fst (advance_day_cycle now s) = Inr (day_start od, o1 + 6)
             \<and> (\<forall>name usr. name \<noteq> [] \<and> map_of (users s) name = Some usr \<longrightarrow>
                   map_of (users (snd (advance_day_cycle now s))) name
                     = Some (credited o1
                         (if wins_in name (day_entries od)
                          then charged (payout_of name (day_entries od)) usr else usr)))
             \<and> (\<forall>k. map_of (days (snd (advance_day_cycle now s))) k =
                   (if k = o1 + 6 then Some (new_day (o1 + 6) Open)
                    else if k = o1 then Some (od\<lparr>status := Executing, finalized_at := Some now\<rparr>)
                    else if k = e
                    then Some (ed\<lparr>status := Final,
                           finalized_at := (if finalized_at ed = None then Some now
                                            else finalized_at ed)\<rparr>)
                    else map_of (days s) k))"
    if op: "find_days_by_status Open s = (o1, od) # rest"
      and ex: "find_day_by_status Executing s = Some (e, ed)" for o1 od rest e ed
  proof -
    note eq = advance_day_cycle_eq [OF assms(2,3) op ex, of now]
    note hd = find_days_by_status_hd [OF op]
    note cur = find_day_by_status_SomeD [OF ex]
    from hd(1) cur(1) have od: "map_of (days s) o1 = Some od" and ed: "map_of (days s) e = Some ed"
      using assms(1) by simp_all
    from hd(2) cur(2) od ed have ne: "e \<noteq> o1"
      by auto
    have users: "map_of (users (snd (advance_day_cycle now s))) name
        = Some (credited o1
                         (if wins_in name (day_entries od)
                          then charged (payout_of name (day_entries od)) usr else usr))"
      if "name \<noteq> []" "map_of (users s) name = Some usr" for name usr
      using that
      by (simp add: eq map_of_add_daily_budget map_of_deduct_payouts [OF distinct_compute_payouts]
          map_of_compute_payouts)
    have rolled: "days (snd (advance_day_cycle now s)) = rolled_days now e o1 (days s)"
      by (simp add: eq)
    have "map_of (days (snd (advance_day_cycle now s))) k =
                   (if k = o1 + 6 then Some (new_day (o1 + 6) Open)
                    else if k = o1 then Some (od\<lparr>status := Executing, finalized_at := Some now\<rparr>)
                    else if k = e
                    then Some (ed\<lparr>status := Final,
                           finalized_at := (if finalized_at ed = None then Some now
                                            else finalized_at ed)\<rparr>)
                    else map_of (days s) k)" for k
      by (simp only: rolled map_of_rolled_days [OF ed od ne])
    with hd(3) users show ?thesis
      by (simp add: eq)
  qed
  from none some show ?thesis
    by blast
qed

theorem advance_day_cycle_correct_witness:
  "distinct (map fst (days rollover_state))
   \<and> 0 \<le> day_transition_hour rollover_state \<and> day_transition_hour rollover_state < 24
   \<and> find_days_by_status Open rollover_state = [(11, rollover_day), (12, sample_day 12 Open [])]
   \<and> find_day_by_status Executing rollover_state = Some (10, sample_day 10 Executing [])
   \<and> fst (advance_day_cycle rollover_now rollover_state) = Inr (11, 17)
   \<and> map_option balance (map_of (users (snd (advance_day_cycle rollover_now rollover_state))) ''alice'')
       = Some 101
   \<and> map_option balance (map_of (users (snd (advance_day_cycle rollover_now rollover_state))) ''bob'')
       = Some 100
   \<and> map_option balance (map_of (users (snd (advance_day_cycle rollover_now rollover_state))) ''carol'')
       = Some 9
   \<and> map_option status (map_of (days (snd (advance_day_cycle rollover_now rollover_state))) 10)
       = Some Final
   \<and> map_option status (map_of (days (snd (advance_day_cycle rollover_now rollover_state))) 11)
       = Some Executing
   \<and> map_option status (map_of (days (snd (advance_day_cycle rollover_now rollover_state))) 17)
       = Some Open"
proof -
  have dist: "distinct (map fst (days rollover_state))"
    and th: "0 \<le> day_transition_hour rollover_state" "day_transition_hour rollover_state < 24"
    by code_simp+
  have opn: "find_days_by_status Open rollover_state
      = (11, rollover_day) # [(12, sample_day 12 Open [])]"
    by code_simp
  have exc: "find_day_by_status Executing rollover_state = Some (10, sample_day 10 Executing [])"
    by code_simp
  note main = advance_day_cycle_correct [OF dist th, of rollover_now, THEN conjunct2, rule_format,
    OF conjI, OF opn exc]
  note result = main [THEN conjunct2, THEN conjunct1]
  note accounts = main [THEN conjunct2, THEN conjunct2, THEN conjunct1, rule_format, OF conjI]
  note calendar = main [THEN conjunct2, THEN conjunct2, THEN conjunct2, rule_format]
  have r: "fst (advance_day_cycle rollover_now rollover_state) = Inr (11, 17)"
    unfolding result by code_simp
  have names: "''alice'' \<noteq> []" "''bob'' \<noteq> []" "''carol'' \<noteq> []"
    by simp_all
  have alice: "map_of (users rollover_state) ''alice'' = Some (sample_user 5)"
    and bob: "map_of (users rollover_state) ''bob'' = Some (sample_user 5)"
    and carol: "map_of (users rollover_state) ''carol'' = Some ((sample_user 9)\<lparr>enabled := False\<rparr>)"
    by code_simp+
  have a: "map_option balance
      (map_of (users (snd (advance_day_cycle rollover_now rollover_state))) ''alice'') = Some 101"
    unfolding accounts [OF names(1) alice] by code_simp
  have b: "map_option balance
      (map_of (users (snd (advance_day_cycle rollover_now rollover_state))) ''bob'') = Some 100"
    unfolding accounts [OF names(2) bob] by code_simp
  have c: "map_option balance
      (map_of (users (snd (advance_day_cycle rollover_now rollover_state))) ''carol'') = Some 9"
    unfolding accounts [OF names(3) carol] by code_simp
  have d10: "map_option status
      (map_of (days (snd (advance_day_cycle rollover_now rollover_state))) 10) = Some Final"
    unfolding calendar by code_simp
  have d11: "map_option status
      (map_of (days (snd (advance_day_cycle rollover_now rollover_state))) 11) = Some Executing"
    unfolding calendar by code_simp
  have d17: "map_option status
      (map_of (days (snd (advance_day_cycle rollover_now rollover_state))) 17) = Some Open"
    unfolding calendar by code_simp
  from dist th opn exc r a b c d10 d11 d17 show ?thesis
    by simp
qed

section \<open>Bulk bid is all or nothing\<close>

text \<open>
  C4.  For a caller with a session and any list of bids: the bulk bid succeeds exactly
  when the list is not empty, every bid of it validates (gpu index in range, day present
  and open, slot and entry present, entry not reserved) and the aggregate cost fits the
  truncated balance.  When it fails, the state is returned as it was (entry prices, winners,
  bids lists, notification queues and bid log).  When it succeeds, every bid of the list
  is applied (price one more, the caller wins, one bid record appended) and every bid
  record and log record that is appended carries the one timestamp \<open>now\<close>.
\<close>

theorem bulk_bid_all_or_nothing:
  assumes "get_session_user s u \<noteq> None"
  shows "(\<not> isl (fst (place_bulk_bids u bids_in now s)) \<longleftrightarrow> bulk_admissible u bids_in s)
       \<and> (isl (fst (place_bulk_bids u bids_in now s)) \<longrightarrow> snd (place_bulk_bids u bids_in now s) = s)
       \<and> (\<not> isl (fst (place_bulk_bids u bids_in now s)) \<longrightarrow>
            list_all (bid_applied u now s (snd (place_bulk_bids u bids_in now s))) bids_in
          \<and> bid_log (snd (place_bulk_bids u bids_in now s))
              = truncate_log (bid_log s @
                  map (log_of u now) (map (validation_of u s) (normalised_bids bids_in))))"
proof -
  from assms obtain usr where usr: "get_session_user s u = Some usr"
    by blast
  show ?thesis
  proof (cases "bulk_admissible u bids_in s")
    case False
    from place_bulk_bids_rejected [OF usr False, of now] obtain e
      where "place_bulk_bids u bids_in now s = (Inl e, s)" by blast
    with False show ?thesis by simp
  next
    case True
    let ?bs = "normalised_bids bids_in"
    let ?s1 = "execute_bids u now (map (validation_of u s) ?bs) s"
    note acc = place_bulk_bids_accepted [OF usr True, of now]
    from True have range: "\<forall>(wk, sk, g)\<in>set ?bs. 0 \<le> g"
      and ex: "\<forall>b\<in>set bids_in. entry_at s b \<noteq> None"
      by (auto simp: bulk_admissible_def list_all_iff bid_valid_def bid_target_ok_def entry_at_def)
    have "bid_applied u now s (?s1\<lparr>bid_log := truncate_log (bid_log ?s1)\<rparr>) b"
      if "b \<in> set bids_in" for b
    proof -
      from that ex obtain e where e: "entry_at s b = Some e" by auto
      from that have "b \<in> set ?bs" by simp
      from entry_at_execute_bids [OF distinct_normalised_bids this range, of u now s s] e
      show ?thesis
        by (simp add: bid_applied_def)
    qed
    then have "list_all (bid_applied u now s (?s1\<lparr>bid_log := truncate_log (bid_log ?s1)\<rparr>)) bids_in"
      by (simp add: list_all_iff)
    with True acc show ?thesis
      by (simp add: bid_log_execute_bids)
  qed
qed

theorem bulk_bid_all_or_nothing_witness:
  "get_session_user release_state ''alice'' \<noteq> None
   \<and> bulk_admissible ''alice'' bulk_bids_ok release_state
   \<and> \<not> isl (fst (place_bulk_bids ''alice'' bulk_bids_ok 7 release_state))
   \<and> list_all (bid_applied ''alice'' 7 release_state
                  (snd (place_bulk_bids ''alice'' bulk_bids_ok 7 release_state))) bulk_bids_ok
   \<and> \<not> bulk_admissible ''alice'' bulk_bids_costly release_state
   \<and> isl (fst (place_bulk_bids ''alice'' bulk_bids_costly 7 release_state))
   \<and> snd (place_bulk_bids ''alice'' bulk_bids_costly 7 release_state) = release_state"
proof -
  have session: "get_session_user release_state ''alice'' \<noteq> None"
    by code_simp
  have adm: "bulk_admissible ''alice'' bulk_bids_ok release_state"
    by code_simp
  have nadm: "\<not> bulk_admissible ''alice'' bulk_bids_costly release_state"
    by code_simp
  note ok = bulk_bid_all_or_nothing [OF session, of bulk_bids_ok 7]
  note costly = bulk_bid_all_or_nothing [OF session, of bulk_bids_costly 7]
  from ok adm have "\<not> isl (fst (place_bulk_bids ''alice'' bulk_bids_ok 7 release_state))"
    and "list_all (bid_applied ''alice'' 7 release_state
                  (snd (place_bulk_bids ''alice'' bulk_bids_ok 7 release_state))) bulk_bids_ok"
    by blast+
  moreover from costly nadm
  have "isl (fst (place_bulk_bids ''alice'' bulk_bids_costly 7 release_state))"
    and "snd (place_bulk_bids ''alice'' bulk_bids_costly 7 release_state) = release_state"
    by blast+
  ultimately show ?thesis
    using session adm nadm by (intro conjI)
qed

section \<open>Bulk release\<close>

text \<open>
  C6, as the code has it.  The reserved set is not consulted by the bulk release: in
  \<open>reserved_state\<close> the reserved entry that alice owns is released and counted.
\<close>

theorem bulk_release_reserved_counterexample:
  "((10, 15), 2) \<in> set (reserved_for reserved_state 10)
   \<and> map_option winner (entry_at reserved_state (10, (10, 15), 2)) = Some (Some ''alice'')
   \<and> fst (the (release_slots_bulk ''alice'' release_items release_now reserved_state))
       = Inr (1, 17 / 50, 5)
   \<and> map_option winner
        (entry_at (snd (the (release_slots_bulk ''alice'' release_items release_now reserved_state)))
           (10, (10, 15), 2)) = Some None"
  by code_simp

text \<open>
  C6, amended.  For a caller with a session and a non-empty list of distinct items whose
  gpu indices are in range, the bulk release returns; it clears exactly the releasable
  items of the list (day executing, slot start at or after the next full hour, entry
  present and won by the caller) and leaves every other entry as it was, whether the
  item is reserved or not; \<open>released_count\<close> is the number of releasable items and the
  caller's balance grows by \<open>released_count * 0.34\<close>.
\<close>

theorem bulk_release_skips_and_refunds:
  assumes "get_session_user s u = Some usr" and "bs \<noteq> []"
      and "list_all gpu_in_range bs" and "distinct bs"
  shows "\<exists>s'. release_slots_bulk u bs now s =
            Some (Inr (released_count u now s bs,
                       of_nat (released_count u now s bs) * RELEASE_REFUND_CREDITS,
                       py_int (balance usr
                               + of_nat (released_count u now s bs) * RELEASE_REFUND_CREDITS)),
                  s')
         \<and> (\<forall>b. gpu_in_range b \<longrightarrow>
               entry_at s' b =
                 (if b \<in> set bs \<and> releasable u (hour_floor now + 3600) s b
                  then map_option clear_entry (entry_at s b) else entry_at s b))
         \<and> map_of (users s') u =
               Some (usr\<lparr>balance := balance usr
                           + of_nat (released_count u now s bs) * RELEASE_REFUND_CREDITS\<rparr>)"
proof -
  let ?rel = "filter (releasable u (hour_floor now + 3600) s) bs"
  let ?r = "of_nat (released_count u now s bs) * RELEASE_REFUND_CREDITS"
  let ?s' = "add_balance u ?r (release_all ?rel s)"
  have entries: "entry_at ?s' b =
      (if b \<in> set bs \<and> releasable u (hour_floor now + 3600) s b
       then map_option clear_entry (entry_at s b) else entry_at s b)" if "gpu_in_range b" for b
  proof -
    from assms(3) have "list_all gpu_in_range ?rel"
      by (simp add: list_all_iff)
    with that have "list_all gpu_in_range (b # ?rel)"
      by simp
    from entry_at_release_all [OF this, of s] show ?thesis
      by simp
  qed
  from assms(1) have "map_of (users s) u = Some usr"
    by (auto simp: get_session_user_def split: option.splits if_splits)
  then have "map_of (users ?s') u = Some (usr\<lparr>balance := balance usr + ?r\<rparr>)"
    by (simp add: map_of_users_add_balance)
  with entries release_slots_bulk_eq [OF assms, of now] show ?thesis
    by blast
qed

theorem bulk_release_skips_and_refunds_witness:
  "get_session_user reserved_state ''alice'' = Some (sample_user 5)
   \<and> release_items \<noteq> [] \<and> list_all gpu_in_range release_items \<and> distinct release_items
   \<and> released_count ''alice'' release_now reserved_state release_items = 1
   \<and> fst (the (release_slots_bulk ''alice'' release_items release_now reserved_state))
       = Inr (1, 17 / 50, 5)
   \<and> entry_at (snd (the (release_slots_bulk ''alice'' release_items release_now reserved_state)))
         (10, (10, 14), 0)
       = entry_at reserved_state (10, (10, 14), 0)
   \<and> map_option balance
        (map_of (users (snd (the (release_slots_bulk ''alice'' release_items release_now
                                   reserved_state)))) ''alice'')
       = Some (267 / 50)"
proof -
  have session: "get_session_user reserved_state ''alice'' = Some (sample_user 5)"
    by code_simp
  have ne: "release_items \<noteq> []" and range: "list_all gpu_in_range release_items"
    and dist: "distinct release_items"
    by code_simp+
  have count: "released_count ''alice'' release_now reserved_state release_items = 1"
    by code_simp
  have past: "gpu_in_range (10, (10, 14), 0)"
    "\<not> releasable ''alice'' (hour_floor release_now + 3600) reserved_state (10, (10, 14), 0)"
    by code_simp+
  have refund: "(1::nat, of_nat 1 * RELEASE_REFUND_CREDITS,
                 py_int (balance (sample_user 5) + of_nat 1 * RELEASE_REFUND_CREDITS))
              = (1, 17 / 50, 5)"
    by code_simp
  have credited: "balance ((sample_user 5)\<lparr>balance := balance (sample_user 5)
                     + of_nat 1 * RELEASE_REFUND_CREDITS\<rparr>) = 267 / 50"
    by code_simp
  from bulk_release_skips_and_refunds [OF session ne range dist, of release_now]
  obtain s' where
    res: "release_slots_bulk ''alice'' release_items release_now reserved_state =
            Some (Inr (released_count ''alice'' release_now reserved_state release_items,
                       of_nat (released_count ''alice'' release_now reserved_state release_items)
                         * RELEASE_REFUND_CREDITS,
                       py_int (balance (sample_user 5)
                               + of_nat (released_count ''alice'' release_now reserved_state
                                           release_items) * RELEASE_REFUND_CREDITS)),
                  s')"
    and entries: "\<forall>b. gpu_in_range b \<longrightarrow>
               entry_at s' b =
                 (if b \<in> set release_items
                       \<and> releasable ''alice'' (hour_floor release_now + 3600) reserved_state b
                  then map_option clear_entry (entry_at reserved_state b)
                  else entry_at reserved_state b)"
    and usr: "map_of (users s') ''alice'' =
               Some ((sample_user 5)\<lparr>balance := balance (sample_user 5)
                           + of_nat (released_count ''alice'' release_now reserved_state
                                       release_items) * RELEASE_REFUND_CREDITS\<rparr>)"
    by blast
  from res [unfolded count refund]
  have r1: "fst (the (release_slots_bulk ''alice'' release_items release_now reserved_state))
       = Inr (1, 17 / 50, 5)"
    by (simp only: option.sel fst_conv)
  from res have s': "snd (the (release_slots_bulk ''alice'' release_items release_now reserved_state)) = s'"
    by (simp only: option.sel snd_conv)
  from entries past have r2: "entry_at s' (10, (10, 14), 0) = entry_at reserved_state (10, (10, 14), 0)"
    by simp
  from usr [unfolded count]
  have r3: "map_option balance (map_of (users s') ''alice'') = Some (267 / 50)"
    by (simp only: option.map credited)
  from session ne range dist count r1 r2 r3 show ?thesis
    unfolding s' by (intro conjI)
qed

section \<open>Single release\<close>

lemma release_slot_succeeds_iff:
  assumes "get_session_user s u = Some usr"
  shows "\<not> isl (fst (release_slot u (dk, sk, g) now s)) \<longleftrightarrow> release_ok u (dk, sk, g) now s"
  using assms
  by (auto simp: release_slot_def release_ok_def lookup_entry_def NUM_GPUS_def Let_def
      split: option.splits if_splits)

lemma release_slot_rejected_unchanged:
  "isl (fst (release_slot u p now s)) \<Longrightarrow> snd (release_slot u p now s) = s"
  by (auto simp: release_slot_def Let_def split: option.splits if_splits prod.splits)

lemma release_slot_effect:
  assumes "get_session_user s u = Some usr" and "release_ok u (dk, sk, g) now s"
  shows "\<exists>e. lookup_entry s dk sk (nat g) = Some e \<and>
           fst (release_slot u (dk, sk, g) now s)
             = Inr (of_int (price e) * (1 / 2), balance usr + of_int (price e) * (1 / 2)) \<and>
           lookup_entry (snd (release_slot u (dk, sk, g) now s)) dk sk (nat g)
             = Some (e\<lparr>winner := None, price := 0\<rparr>) \<and>
           map_of (users (snd (release_slot u (dk, sk, g) now s))) u
             = Some (usr\<lparr>balance := balance usr + of_int (price e) * (1 / 2)\<rparr>)"
  using assms
  by (auto simp: release_slot_def release_ok_def Let_def lookup_entry_map_gpu_entry
        map_of_users_add_balance get_session_user_def clear_entry_def lookup_entry_def[of s]
        NUM_GPUS_def
      split: option.splits if_splits)

text \<open>
  C7.  For a caller with a session, a single release succeeds exactly when the day has
  status executing, the caller is the winner of the entry and the slot starts at or after
  the next full hour (\<open>hour_floor now + 3600\<close>, equality accepted).  On success the
  entry's winner becomes null, its price 0, and the caller's balance grows by half the
  previous price.  Otherwise (in particular for a slot that starts before that boundary)
  the state is unchanged.
\<close>

theorem release_slot_correct:
  assumes "get_session_user s u = Some usr"
  shows "(\<not> isl (fst (release_slot u (dk, sk, g) now s)) \<longleftrightarrow> release_ok u (dk, sk, g) now s)
       \<and> (release_ok u (dk, sk, g) now s \<longrightarrow>
            (\<exists>e. lookup_entry s dk sk (nat g) = Some e \<and>
               fst (release_slot u (dk, sk, g) now s)
                 = Inr (of_int (price e) * (1 / 2), balance usr + of_int (price e) * (1 / 2)) \<and>
               lookup_entry (snd (release_slot u (dk, sk, g) now s)) dk sk (nat g)
                 = Some (e\<lparr>winner := None, price := 0\<rparr>) \<and>
               map_of (users (snd (release_slot u (dk, sk, g) now s))) u
                 = Some (usr\<lparr>balance := balance usr + of_int (price e) * (1 / 2)\<rparr>)))
       \<and> (\<not> release_ok u (dk, sk, g) now s \<longrightarrow> snd (release_slot u (dk, sk, g) now s) = s)
       \<and> (\<forall>t. slot_datetime sk = Some t \<and> t < hour_floor now + 3600 \<longrightarrow>
             isl (fst (release_slot u (dk, sk, g) now s)) \<and>
             snd (release_slot u (dk, sk, g) now s) = s)"
proof -
  have iff: "\<not> isl (fst (release_slot u (dk, sk, g) now s)) \<longleftrightarrow> release_ok u (dk, sk, g) now s"
    using assms by (rule release_slot_succeeds_iff)
  have unchanged: "\<not> release_ok u (dk, sk, g) now s \<Longrightarrow> snd (release_slot u (dk, sk, g) now s) = s"
    using iff release_slot_rejected_unchanged by blast
  have early: "\<not> release_ok u (dk, sk, g) now s"
    if "slot_datetime sk = Some t" and "t < hour_floor now + 3600" for t
    using that by (simp add: release_ok_def)
  show ?thesis
    using iff unchanged early release_slot_effect [OF assms] by blast
qed

theorem release_slot_correct_witness:
  "get_session_user release_state ''alice'' = Some (sample_user 5)
   \<and> release_ok ''alice'' (10, (10, 15), 2) release_now release_state
   \<and> slot_datetime (10, 15) = Some (hour_floor release_now + 3600)
   \<and> fst (release_slot ''alice'' (10, (10, 15), 2) release_now release_state) = Inr (2, 7)
   \<and> map_option balance
        (map_of (users (snd (release_slot ''alice'' (10, (10, 15), 2) release_now release_state)))
           ''alice'') = Some 7
   \<and> slot_datetime (10, 14) = Some (hour_floor release_now)
   \<and> isl (fst (release_slot ''alice'' (10, (10, 14), 0) release_now release_state))
   \<and> snd (release_slot ''alice'' (10, (10, 14), 0) release_now release_state) = release_state"
proof -
  have session: "get_session_user release_state ''alice'' = Some (sample_user 5)"
    by code_simp
  have ok: "release_ok ''alice'' (10, (10, 15), 2) release_now release_state"
    by code_simp
  have entry: "lookup_entry release_state 10 (10, 15) 2 = Some (sample_entry 2 4 (Some ''alice''))"
    by code_simp
  have boundary: "slot_datetime (10, 15) = Some (hour_floor release_now + 3600)"
    by code_simp
  have early: "slot_datetime (10, 14) = Some (hour_floor release_now)"
    by code_simp
  have price: "price (sample_entry 2 4 (Some ''alice'')) = 4" and bal: "balance (sample_user 5) = 5"
    by (simp_all add: sample_entry_def sample_user_def)
  note main = release_slot_correct [OF session, of 10 "(10, 15)" 2 release_now]
  note late = release_slot_correct [OF session, of 10 "(10, 14)" 0 release_now]
  from main ok entry price bal
  have "fst (release_slot ''alice'' (10, (10, 15), 2) release_now release_state) = Inr (2, 7)"
    and "map_option balance
        (map_of (users (snd (release_slot ''alice'' (10, (10, 15), 2) release_now release_state)))
           ''alice'') = Some 7"
    by auto
  moreover from late early
  have "isl (fst (release_slot ''alice'' (10, (10, 14), 0) release_now release_state))"
    and "snd (release_slot ''alice'' (10, (10, 14), 0) release_now release_state) = release_state"
    by auto
  ultimately show ?thesis
    using session ok boundary early by simp
qed

section \<open>Finalization of past slots\<close>

text \<open>
  C8.  With a tracking whose day and slot keys are unique: after
  \<open>finalize_past_gpu_slots\<close> an entry differs from before only in \<open>actual_user\<close>, and
  only when the tracking holds a sample map for its (day, slot, gpu), the day's status is
  executing or final, the slot's end is at or before the start of the current hour, and
  the entry did not carry the field; an entry that carries it is left as it is.  The
  value written is \<open>most_frequent\<close> of the sample map: for a map with samples the first
  item, in the map's order, whose count is maximal (every earlier count is smaller, no
  later count is larger), and null for a map without samples.
\<close>

theorem finalize_past_gpu_slots_correct:
  assumes "wf_tracking (gpu_usage_tracking s)"
  shows "lookup_entry (snd (finalize_past_gpu_slots now s)) d k g
           = (case lookup_entry s d k g of
                None \<Rightarrow> None
              | Some e \<Rightarrow>
                  (case tracked_counts s d k g of
                     None \<Rightarrow> Some e
                   | Some uc \<Rightarrow>
                       if day_closed s d \<and> slot_done now k \<and> actual_user e = None
                       then Some (e\<lparr>actual_user := Some (most_frequent uc)\<rparr>) else Some e))
       \<and> (\<forall>n. most_frequent uc = Some n \<longrightarrow>
             (\<exists>pre c post. uc = pre @ (n, c) # post
                \<and> (\<forall>y\<in>set pre. snd y < c) \<and> (\<forall>y\<in>set post. snd y \<le> c)))
       \<and> (most_frequent uc = None \<longleftrightarrow> uc = [])"
  using finalize_entry_eq [OF assms, of now d k g]
    most_frequent_first_max [of uc] most_frequent_None [of uc]
  by blast

theorem finalize_past_gpu_slots_correct_witness:
  "wf_tracking (gpu_usage_tracking telemetry_state)
   \<and> map_option actual_user
        (lookup_entry (snd (finalize_past_gpu_slots finalize_now telemetry_state)) 10 (10, 14) 2)
       = Some (Some (Some ''bob''))
   \<and> map_option actual_user
        (lookup_entry (snd (finalize_past_gpu_slots finalize_now telemetry_state)) 10 (10, 14) 5)
       = Some (Some (Some ''carol''))
   \<and> map_option actual_user
        (lookup_entry (snd (finalize_past_gpu_slots finalize_now telemetry_state)) 10 (10, 15) 2)
       = Some None"
proof -
  have wf: "wf_tracking (gpu_usage_tracking telemetry_state)"
    by code_simp
  note fin = finalize_past_gpu_slots_correct [OF wf, where now = finalize_now and uc = "[]",
    THEN conjunct1]
  have "map_option actual_user
        (lookup_entry (snd (finalize_past_gpu_slots finalize_now telemetry_state)) 10 (10, 14) 2)
       = Some (Some (Some ''bob''))"
    unfolding fin by code_simp
  moreover have "map_option actual_user
        (lookup_entry (snd (finalize_past_gpu_slots finalize_now telemetry_state)) 10 (10, 14) 5)
       = Some (Some (Some ''carol''))"
    unfolding fin by code_simp
  moreover have "map_option actual_user
        (lookup_entry (snd (finalize_past_gpu_slots finalize_now telemetry_state)) 10 (10, 15) 2)
       = Some None"
    unfolding fin by code_simp
  ultimately show ?thesis
    using wf by (intro conjI)
qed

section \<open>Undo against a third party\<close>

text \<open>
  C9.  An undo whose previous winner is a third party (a username other than the
  caller's) is rejected and leaves the whole state as it is: the entry's price, winner
  and bids, and every user's notification queue.  When the caller owns the entry of an
  open day, the error is the conflict error.
\<close>

theorem undo_third_party_rejected:
  assumes "w \<noteq> u" and "w \<noteq> []"
  shows "snd (undo_bid u (wk, sk, g) (Some w) pp s) = s
       \<and> isl (fst (undo_bid u (wk, sk, g) (Some w) pp s))
       \<and> (undo_owner u (wk, sk, g) s \<longrightarrow>
            fst (undo_bid u (wk, sk, g) (Some w) pp s) = Inl Undo_conflict)"
  using assms
  by (auto simp: undo_bid_def undo_owner_def lookup_entry_def NUM_GPUS_def Let_def
      split: option.splits if_splits)

theorem undo_third_party_rejected_witness:
  "undo_owner ''alice'' (11, (11, 9), 3) outbid_state
   \<and> map_option winner (lookup_entry outbid_state 11 (11, 9) 3) = Some (Some ''alice'')
   \<and> map_option price (lookup_entry outbid_state 11 (11, 9) 3) = Some 2
   \<and> map_option outbid_notification_queue (map_of (users outbid_state) ''bob'')
        = Some [(11, (11, 9), 3)]
   \<and> undo_bid ''alice'' (11, (11, 9), 3) (Some ''bob'') 1 outbid_state
        = (Inl Undo_conflict, outbid_state)"
proof -
  have owner: "undo_owner ''alice'' (11, (11, 9), 3) outbid_state"
    by code_simp
  have before: "map_option winner (lookup_entry outbid_state 11 (11, 9) 3) = Some (Some ''alice'')"
    "map_option price (lookup_entry outbid_state 11 (11, 9) 3) = Some 2"
    "map_option outbid_notification_queue (map_of (users outbid_state) ''bob'')
        = Some [(11, (11, 9), 3)]"
    by code_simp+
  have names: "''bob'' \<noteq> ''alice''" "''bob'' \<noteq> []"
    by simp_all
  from undo_third_party_rejected [OF names, of 11 "(11, 9)" 3 1 outbid_state] owner
  have "undo_bid ''alice'' (11, (11, 9), 3) (Some ''bob'') 1 outbid_state
        = (Inl Undo_conflict, outbid_state)"
    by (simp add: prod_eq_iff)
  with owner before show ?thesis by simp
qed

section \<open>A poll without users pins the actual user to null\<close>

text \<open>
  C10.  An authorised poll whose usage map holds a valid gpu index with only empty user
  names, for a (day, slot, gpu) without samples so far, leaves an empty sample map for
  it.  A finalization that finds an empty sample map for an entry without the field (day
  closed, slot done) writes \<open>actual_user = null\<close>; and a finalization never changes an
  entry that carries the field, whatever the tracking holds by then.
\<close>

theorem empty_poll_pins_null:
  assumes "expected_token \<noteq> []" and "auth_header = ''Bearer '' @ expected_token"
      and "0 \<le> gi" and "gi < 8" and "(gi, us) \<in> set usage"
      and "\<forall>(gj, us')\<in>set usage. gj = gi \<longrightarrow> list_all (\<lambda>n. n = []) us'"
      and "tracked_counts s (poll_week s now) (poll_slot now) (nat gi) = None
           \<or> tracked_counts s (poll_week s now) (poll_slot now) (nat gi) = Some []"
  shows "tracked_counts (snd (process_gpu_status auth_header expected_token usage now s))
           (poll_week s now) (poll_slot now) (nat gi) = Some []
       \<and> (\<forall>s2 now2 e.
             wf_tracking (gpu_usage_tracking s2) \<and> tracked_counts s2 d k g = Some []
             \<and> lookup_entry s2 d k g = Some e \<and> actual_user e = None
             \<and> day_closed s2 d \<and> slot_done now2 k
             \<longrightarrow> lookup_entry (snd (finalize_past_gpu_slots now2 s2)) d k g
                   = Some (e\<lparr>actual_user := Some None\<rparr>))
       \<and> (\<forall>s3 now3 e.
             wf_tracking (gpu_usage_tracking s3) \<and> lookup_entry s3 d k g = Some e
             \<and> actual_user e \<noteq> None
             \<longrightarrow> lookup_entry (snd (finalize_past_gpu_slots now3 s3)) d k g = Some e)"
proof -
  let ?gt0 = "get_or [] (default_key (poll_slot now) []
              (get_or [] (default_key (poll_week s now) [] (gpu_usage_tracking s)) (poll_week s now)))
              (poll_slot now)"
  from assms(7) have start: "map_of (fst (?gt0, 0::nat)) (nat gi) = None
      \<or> map_of (fst (?gt0, 0::nat)) (nat gi) = Some []"
    by (simp add: poll_start_counts)
  from assms(5) have "gi \<in> fst ` set usage"
    by force
  with fold_record_usage_empty [OF assms(3,4,6) start]
  have "map_of (fst (fold record_usage usage (?gt0, 0))) (nat gi) = Some []"
    by blast
  then have poll: "tracked_counts (snd (process_gpu_status auth_header expected_token usage now s))
           (poll_week s now) (poll_slot now) (nat gi) = Some []"
    by (simp only: process_gpu_status_tracked [OF assms(1,2)])
  have null: "lookup_entry (snd (finalize_past_gpu_slots now2 s2)) d k g
                   = Some (e\<lparr>actual_user := Some None\<rparr>)"
    if "wf_tracking (gpu_usage_tracking s2)" "tracked_counts s2 d k g = Some []"
      "lookup_entry s2 d k g = Some e" "actual_user e = None" "day_closed s2 d" "slot_done now2 k"
    for s2 now2 e
    using that by (simp add: finalize_entry_eq most_frequent_def)
  have pinned: "lookup_entry (snd (finalize_past_gpu_slots now3 s3)) d k g = Some e"
    if "wf_tracking (gpu_usage_tracking s3)" "lookup_entry s3 d k g = Some e" "actual_user e \<noteq> None"
    for s3 now3 e
    using that by (auto simp: finalize_entry_eq split: option.splits)
  from poll null pinned show ?thesis
    by blast
qed

theorem empty_poll_pins_null_witness:
  "tracked_counts telemetry_state (poll_week telemetry_state release_now) (poll_slot release_now)
        (nat 7) = None
   \<and> poll_week telemetry_state release_now = 10 \<and> poll_slot release_now = (10, 14)
   \<and> tracked_counts polled_state 10 (10, 14) 7 = Some []
   \<and> map_option actual_user (lookup_entry polled_state 10 (10, 14) 7) = Some None
   \<and> map_option actual_user (lookup_entry finalized_state 10 (10, 14) 7) = Some (Some None)
   \<and> tracked_counts resampled_state 10 (10, 14) 7 = Some [(''bob'', 9)]
   \<and> map_option actual_user
        (lookup_entry (snd (finalize_past_gpu_slots (finalize_now + 3600) resampled_state))
           10 (10, 14) 7) = Some (Some None)"
proof -
  have token: "''secret'' \<noteq> []" "''Bearer secret'' = ''Bearer '' @ ''secret''"
    by simp_all
  have gpu: "(0::int) \<le> 7" "(7::int) < 8" "(7, []) \<in> set poll_usage"
    "\<forall>(gj, us')\<in>set poll_usage. gj = 7 \<longrightarrow> list_all (\<lambda>n. n = []) us'"
    by (simp_all add: poll_usage_def)
  have fresh: "tracked_counts telemetry_state (poll_week telemetry_state release_now)
        (poll_slot release_now) (nat 7) = None"
    by code_simp
  have keys: "poll_week telemetry_state release_now = 10" "poll_slot release_now = (10, 14)"
    "nat 7 = 7"
    by code_simp+
  note main = empty_poll_pins_null [OF token gpu disjI1, OF fresh,
    where d = 10 and k = "(10, 14)" and g = 7]
  from main have polled: "tracked_counts polled_state 10 (10, 14) 7 = Some []"
    unfolding polled_state_def keys by (rule conjunct1)
  obtain e where e: "lookup_entry polled_state 10 (10, 14) 7 = Some e" "actual_user e = None"
  proof
    show "lookup_entry polled_state 10 (10, 14) 7 = Some (sample_entry 7 0 None)"
      by code_simp
    show "actual_user (sample_entry 7 0 None) = None"
      by code_simp
  qed
  have wf2: "wf_tracking (gpu_usage_tracking polled_state)"
    and closed: "day_closed polled_state 10" and ended: "slot_done finalize_now (10, 14)"
    by code_simp+
  from main have "\<forall>s2 now2 e.
             wf_tracking (gpu_usage_tracking s2) \<and> tracked_counts s2 10 (10, 14) 7 = Some []
             \<and> lookup_entry s2 10 (10, 14) 7 = Some e \<and> actual_user e = None
             \<and> day_closed s2 10 \<and> slot_done now2 (10, 14)
             \<longrightarrow> lookup_entry (snd (finalize_past_gpu_slots now2 s2)) 10 (10, 14) 7
                   = Some (e\<lparr>actual_user := Some None\<rparr>)"
    by (rule conjunct2 [THEN conjunct1])
  with wf2 polled e closed ended
  have fin: "lookup_entry finalized_state 10 (10, 14) 7 = Some (e\<lparr>actual_user := Some None\<rparr>)"
    unfolding finalized_state_def by blast
  have wf3: "wf_tracking (gpu_usage_tracking resampled_state)"
    and counts: "tracked_counts resampled_state 10 (10, 14) 7 = Some [(''bob'', 9)]"
    by code_simp+
  from fin have fin3: "lookup_entry resampled_state 10 (10, 14) 7 = Some (e\<lparr>actual_user := Some None\<rparr>)"
    by (simp add: resampled_state_def)
  from main have "\<forall>s3 now3 e.
             wf_tracking (gpu_usage_tracking s3) \<and> lookup_entry s3 10 (10, 14) 7 = Some e
             \<and> actual_user e \<noteq> None
             \<longrightarrow> lookup_entry (snd (finalize_past_gpu_slots now3 s3)) 10 (10, 14) 7 = Some e"
    by (rule conjunct2 [THEN conjunct2])
  with wf3 fin3
  have "lookup_entry (snd (finalize_past_gpu_slots (finalize_now + 3600) resampled_state))
           10 (10, 14) 7 = Some (e\<lparr>actual_user := Some None\<rparr>)"
    by simp
  with fresh keys polled e fin counts show ?thesis
    by simp
qed

end
